theory Spec2Isabelle
  imports Main
begin

section \<open>Strings and the string primitives the formatter uses\<close>

text \<open>
  A JavaScript string is modelled as a \<open>string\<close>: a list of code units, here those
  below 256. \<open>is_space\<close> is the class the regular expression \<open>\s\<close>, lodash's
  \<open>trimEnd\<close> and \<open>String.prototype.trim\<close> share, on that range: TAB, LF, VT, FF, CR,
  SPACE and NBSP.
\<close>

definition NL :: char where
  "NL = CHR 0x0A"

definition SP :: char where
  "SP = CHR 0x20"

definition TAB :: char where
  "TAB = CHR 0x09"

definition is_space :: "char \<Rightarrow> bool" where
  "is_space c \<longleftrightarrow>
     c = CHR 0x09 \<or> c = CHR 0x0A \<or> c = CHR 0x0B \<or> c = CHR 0x0C \<or> c = CHR 0x0D \<or>
     c = CHR 0x20 \<or> c = CHR 0xA0"

text \<open>lodash \<open>trimEnd(string)\<close>: the string without its trailing whitespace.\<close>

definition trimEnd :: "string \<Rightarrow> string" where
  "trimEnd s = rev (dropWhile is_space (rev s))"

text \<open>\<open>String.prototype.trim\<close>: whitespace removed at both ends.\<close>

definition trim :: "string \<Rightarrow> string" where
  "trim s = trimEnd (dropWhile is_space s)"

text \<open>
  \<open>s.split("\n")\<close>: the pieces between the line feeds; never empty
  (\<open>"".split("\n")\<close> is \<open>[""]\<close>).
\<close>

fun split_nl :: "string \<Rightarrow> string list" where
  "split_nl [] = [[]]"
| "split_nl (c # cs) =
     (let rest = split_nl cs
      in if c = NL then [] # rest else (c # hd rest) # tl rest)"

text \<open>
  \<open>s.replace(pat, rep)\<close> with a string pattern: the first occurrence only. The two
  replacement texts the formatter passes this way (\<open>/*\<close> and the empty string) hold no
  \<open>$\<close>, so they are inserted as they are.
\<close>

fun replaceFirst :: "string \<Rightarrow> string \<Rightarrow> string \<Rightarrow> string" where
  "replaceFirst pat rep [] = (if pat = [] then rep else [])"
| "replaceFirst pat rep (c # cs) =
     (if take (length pat) (c # cs) = pat then rep @ drop (length pat) (c # cs)
      else c # replaceFirst pat rep cs)"

text \<open>
  The replacement text of \<open>replace\<close> is a template: \<open>$$\<close> stands for a dollar sign,
  \<open>$&\<close> for the match, \<open>$`\<close> for the text before the match and \<open>$'\<close> for the text
  after it. The pattern \<open>/\n/g\<close> has no capture group, so \<open>$1\<close> and the like stay as
  written.
\<close>

fun getSubstitution :: "string \<Rightarrow> string \<Rightarrow> string \<Rightarrow> string \<Rightarrow> string" where
  "getSubstitution matched preceding following [] = []"
| "getSubstitution matched preceding following [c] = [c]"
| "getSubstitution matched preceding following (c # d # r) =
     (if c = CHR ''$'' \<and> d = CHR ''$'' then CHR ''$'' # getSubstitution matched preceding following r
      else if c = CHR ''$'' \<and> d = CHR ''&'' then matched @ getSubstitution matched preceding following r
      else if c = CHR ''$'' \<and> d = CHR 0x60 then preceding @ getSubstitution matched preceding following r
      else if c = CHR ''$'' \<and> d = CHR 0x27 then following @ getSubstitution matched preceding following r
      else c # getSubstitution matched preceding following (d # r))"

text \<open>
  \<open>s.replace(/\n/g, template)\<close>: every line feed replaced. \<open>preceding\<close> is the part of
  \<open>s\<close> already passed.
\<close>

fun replaceNewlines :: "string \<Rightarrow> string \<Rightarrow> string \<Rightarrow> string" where
  "replaceNewlines template preceding [] = []"
| "replaceNewlines template preceding (c # cs) =
     (if c = NL
      then getSubstitution [NL] preceding cs template @ replaceNewlines template (preceding @ [c]) cs
      else c # replaceNewlines template (preceding @ [c]) cs)"

text \<open>\<open>string.replace(/\s+/g, " ")\<close>: every run of whitespace becomes one space.\<close>

function equalizeWhitespace :: "string \<Rightarrow> string" where
  "equalizeWhitespace [] = []"
| "equalizeWhitespace (c # cs) =
     (if is_space c then SP # equalizeWhitespace (dropWhile is_space cs)
      else c # equalizeWhitespace cs)"
  by pat_completeness auto
termination
  by (relation "measure length") (auto simp: less_Suc_eq_le length_dropWhile_le)

text \<open>
  \<open>toUpperCase\<close> on code units below 256: the letters a to z and the accented letters
  0xE0 to 0xFE (but the division sign 0xF7) become their capitals, 32 below; the sharp s
  0xDF becomes SS. The micro sign and y with diaeresis have their upper case beyond 255;
  they are left in place, which no comparison with an ASCII text can tell apart.
\<close>

definition lowerLetters :: string where
  "lowerLetters = ''abcdefghijklmnopqrstuvwxyz''"

definition upperLetters :: string where
  "upperLetters = ''ABCDEFGHIJKLMNOPQRSTUVWXYZ''"

definition lowerAccented :: string where
  "lowerAccented = [
      CHR 0xE0, CHR 0xE1, CHR 0xE2, CHR 0xE3, CHR 0xE4, CHR 0xE5, CHR 0xE6, CHR 0xE7,
      CHR 0xE8, CHR 0xE9, CHR 0xEA, CHR 0xEB, CHR 0xEC, CHR 0xED, CHR 0xEE, CHR 0xEF,
      CHR 0xF0, CHR 0xF1, CHR 0xF2, CHR 0xF3, CHR 0xF4, CHR 0xF5, CHR 0xF6, CHR 0xF8,
      CHR 0xF9, CHR 0xFA, CHR 0xFB, CHR 0xFC, CHR 0xFD, CHR 0xFE]"

definition upperAccented :: string where
  "upperAccented = [
      CHR 0xC0, CHR 0xC1, CHR 0xC2, CHR 0xC3, CHR 0xC4, CHR 0xC5, CHR 0xC6, CHR 0xC7,
      CHR 0xC8, CHR 0xC9, CHR 0xCA, CHR 0xCB, CHR 0xCC, CHR 0xCD, CHR 0xCE, CHR 0xCF,
      CHR 0xD0, CHR 0xD1, CHR 0xD2, CHR 0xD3, CHR 0xD4, CHR 0xD5, CHR 0xD6, CHR 0xD8,
      CHR 0xD9, CHR 0xDA, CHR 0xDB, CHR 0xDC, CHR 0xDD, CHR 0xDE]"

definition upperChar :: "char \<Rightarrow> string" where
  "upperChar c =
     (if c = CHR 0xDF then ''SS''
      else case map_of (zip (lowerLetters @ lowerAccented) (upperLetters @ upperAccented)) c of
             None \<Rightarrow> [c]
           | Some u \<Rightarrow> [u])"

definition toUpperCase :: "string \<Rightarrow> string" where
  "toUpperCase s = concat (map upperChar s)"

text \<open>
  \<open>(/^LIMIT$/i).test(v)\<close>: without the \<open>m\<close> flag the anchors are the two ends of
  \<open>v\<close>, and without the \<open>u\<close> flag a character matches a letter of the pattern when its
  one-character upper case is that letter, which only the ASCII letters reach.
\<close>

definition asciiUpper :: "char \<Rightarrow> char" where
  "asciiUpper c = (case map_of (zip lowerLetters upperLetters) c of None \<Rightarrow> c | Some u \<Rightarrow> u)"

definition testLIMIT :: "string \<Rightarrow> bool" where
  "testLIMIT v \<longleftrightarrow> map asciiUpper v = ''LIMIT''"

section \<open>Tokens\<close>

text \<open>
  Modelled from the spec: the table \<open>tokenTypes\<close> (src/core/tokenTypes.js is not among the
  sources). The first ten are the types Formatter.js names; the last two are the spec's
  plain punctuation and its identifiers and literals, which the formatter tells apart by
  their value only.
\<close>

datatype tokenTypes =
    WHITESPACE
  | LINE_COMMENT
  | BLOCK_COMMENT
  | RESERVED_TOPLEVEL
  | RESERVED_NEWLINE
  | RESERVED_NEWLINE_WITH_INDENT
  | RESERVED
  | OPEN_PAREN
  | CLOSE_PAREN
  | PLACEHOLDER
  | PUNCTUATION
  | OTHER

record token =
  type :: tokenTypes
  "value" :: string

section \<open>Indentation\<close>

text \<open>
  Modelled from the spec: the class \<open>Indentation\<close> (src/core/Indentation.js is not among
  the sources). Four counters that never go below zero, each moved by one per call, the
  overflow counter reset as a whole; the indent text is the indent unit repeated as many
  times as the four counters sum to.
\<close>

record Indentation =
  indent :: string
  topLevel :: nat
  blockLevel :: nat
  newLineWithIndentLevel :: nat
  maxCharacterLevel :: nat

definition newIndentation :: "string \<Rightarrow> Indentation" where
  "newIndentation unit =
     \<lparr>indent = unit, topLevel = 0, blockLevel = 0, newLineWithIndentLevel = 0,
      maxCharacterLevel = 0\<rparr>"

definition getIndent :: "Indentation \<Rightarrow> string" where
  "getIndent i =
     concat (replicate (topLevel i + blockLevel i + newLineWithIndentLevel i + maxCharacterLevel i)
       (indent i))"

definition increaseToplevel :: "Indentation \<Rightarrow> Indentation" where
  "increaseToplevel i = i\<lparr>topLevel := topLevel i + 1\<rparr>"

definition decreaseTopLevel :: "Indentation \<Rightarrow> Indentation" where
  "decreaseTopLevel i = i\<lparr>topLevel := topLevel i - 1\<rparr>"

definition increaseBlockLevel :: "Indentation \<Rightarrow> Indentation" where
  "increaseBlockLevel i = i\<lparr>blockLevel := blockLevel i + 1\<rparr>"

definition decreaseBlockLevel :: "Indentation \<Rightarrow> Indentation" where
  "decreaseBlockLevel i = i\<lparr>blockLevel := blockLevel i - 1\<rparr>"

definition increaseNewLineWithIndentLevel :: "Indentation \<Rightarrow> Indentation" where
  "increaseNewLineWithIndentLevel i = i\<lparr>newLineWithIndentLevel := newLineWithIndentLevel i + 1\<rparr>"

definition decreaseNewLineWithIndentLevel :: "Indentation \<Rightarrow> Indentation" where
  "decreaseNewLineWithIndentLevel i = i\<lparr>newLineWithIndentLevel := newLineWithIndentLevel i - 1\<rparr>"

definition increaseMaxCharacterLevel :: "Indentation \<Rightarrow> Indentation" where
  "increaseMaxCharacterLevel i = i\<lparr>maxCharacterLevel := maxCharacterLevel i + 1\<rparr>"

definition decreaseAllMaxCharacterLevel :: "Indentation \<Rightarrow> Indentation" where
  "decreaseAllMaxCharacterLevel i = i\<lparr>maxCharacterLevel := 0\<rparr>"

section \<open>The collaborators and the formatter's state\<close>

text \<open>
  \<open>InlineBlock\<close>, \<open>Params\<close> and the tokenizer are not among the sources. Their methods are
  parameters of the model: \<open>'ib\<close> and \<open>'p\<close> are the states of an inline block detector and
  of a placeholder lookup, and what is proved below holds whatever these methods do.
  \<open>paramsGet\<close> returns the text for a placeholder and the lookup's next state.
\<close>

record ('ib, 'p) collaborators =
  beginIfPossible :: "'ib \<Rightarrow> token list \<Rightarrow> nat \<Rightarrow> 'ib"
  isActive :: "'ib \<Rightarrow> bool"
  endInline :: "'ib \<Rightarrow> 'ib"
  paramsGet :: "'p \<Rightarrow> token \<Rightarrow> string \<times> 'p"
  tokenize :: "string \<Rightarrow> token list"

text \<open>
  The fields the constructor sets. \<open>previousReservedWord\<close> starts as the empty object,
  here \<open>None\<close>; \<open>maxCharacterPerLine\<close> is \<open>cfg.maxCharacterPerLine || 0\<close>.
\<close>

record ('ib, 'p) Formatter =
  indentation :: Indentation
  inlineBlock :: 'ib
  params :: 'p
  previousReservedWord :: "token option"
  nextLinePrepend :: string
  maxCharacterPerLine :: int

definition newFormatter :: "string \<Rightarrow> 'ib \<Rightarrow> 'p \<Rightarrow> int \<Rightarrow> ('ib, 'p) Formatter" where
  "newFormatter unit ib ps maxChars =
     \<lparr>indentation = newIndentation unit, inlineBlock = ib, params = ps,
      previousReservedWord = None, nextLinePrepend = [], maxCharacterPerLine = maxChars\<rparr>"

section \<open>The formatting rules of Formatter.js\<close>

text \<open>
  A method that changes \<open>this\<close> returns the formatter next to the query; one that only
  reads it returns the query.
\<close>

definition addNewline :: "('ib, 'p) Formatter \<Rightarrow> string \<Rightarrow> string" where
  "addNewline fm query = trimEnd query @ [NL] @ getIndent (indentation fm)"

definition dropMaxCharacterIndent :: "('ib, 'p) Formatter \<Rightarrow> ('ib, 'p) Formatter" where
  "dropMaxCharacterIndent fm = fm\<lparr>indentation := decreaseAllMaxCharacterLevel (indentation fm)\<rparr>"

definition lineCommentText :: "string \<Rightarrow> string" where
  "lineCommentText v = replaceFirst [NL] [] (replaceFirst ''--'' ''/*'' v) @ '' */''"

definition formatLineComment ::
  "('ib, 'p) Formatter \<Rightarrow> token \<Rightarrow> string \<Rightarrow> ('ib, 'p) Formatter \<times> string" where
  "formatLineComment fm tok query =
     (let fm1 = dropMaxCharacterIndent fm
      in (fm1, addNewline fm1 (query @ lineCommentText (value tok))))"

definition checkMaxCharacter ::
  "('ib, 'p) Formatter \<Rightarrow> token list \<Rightarrow> nat \<Rightarrow> string \<Rightarrow> ('ib, 'p) Formatter \<times> string" where
  "checkMaxCharacter fm tokens index query =
     (let lastLine = last (split_nl query)
      in if maxCharacterPerLine fm \<noteq> 0 \<and>
            int (length lastLine + length (value (tokens ! index))) > maxCharacterPerLine fm
         then (let fm1 = fm\<lparr>indentation := increaseMaxCharacterLevel (indentation fm)\<rparr>
               in (fm1, addNewline fm1 query))
         else (fm, query))"

definition indentComment :: "('ib, 'p) Formatter \<Rightarrow> string \<Rightarrow> string" where
  "indentComment fm comment = replaceNewlines (NL # getIndent (indentation fm)) [] comment"

definition formatBlockComment :: "('ib, 'p) Formatter \<Rightarrow> token \<Rightarrow> string \<Rightarrow> string" where
  "formatBlockComment fm tok query =
     addNewline fm (addNewline fm query @ indentComment fm (value tok))"

definition formatToplevelReservedWord ::
  "('ib, 'p) Formatter \<Rightarrow> token \<Rightarrow> string \<Rightarrow> ('ib, 'p) Formatter \<times> string" where
  "formatToplevelReservedWord fm tok query =
     (let fm1 = dropMaxCharacterIndent fm;
          fm2 = fm1\<lparr>indentation := decreaseNewLineWithIndentLevel (indentation fm1)\<rparr>;
          fm3 = fm2\<lparr>indentation := decreaseTopLevel (indentation fm2)\<rparr>;
          query1 = addNewline fm3 query;
          fm4 = fm3\<lparr>indentation := increaseToplevel (indentation fm3)\<rparr>;
          query2 = query1 @ equalizeWhitespace (value tok)
      in (fm4, addNewline fm4 query2))"

definition dropNewLineWithIndentLevel :: "string list" where
  "dropNewLineWithIndentLevel =
     [''CROSS APPLY'', ''CROSS JOIN'', ''INNER JOIN'', ''JOIN'', ''LEFT JOIN'',
      ''LEFT OUTER JOIN'', ''OUTER APPLY'', ''OUTER JOIN'', ''RIGHT JOIN'', ''RIGHT OUTER JOIN'']"

definition formatNewlineReservedWord ::
  "('ib, 'p) Formatter \<Rightarrow> token \<Rightarrow> string \<Rightarrow> ('ib, 'p) Formatter \<times> string" where
  "formatNewlineReservedWord fm tok query =
     (let fm1 = dropMaxCharacterIndent fm;
          fm2 = (if toUpperCase (value tok) \<in> set dropNewLineWithIndentLevel
                 then fm1\<lparr>indentation := decreaseNewLineWithIndentLevel (indentation fm1)\<rparr>
                 else fm1)
      in (fm2, addNewline fm2 query @ equalizeWhitespace (value tok) @ '' ''))"

definition formatNewlineReservedWordWithIndent ::
  "('ib, 'p) Formatter \<Rightarrow> token \<Rightarrow> string \<Rightarrow> ('ib, 'p) Formatter \<times> string" where
  "formatNewlineReservedWordWithIndent fm tok query =
     (let fm1 = dropMaxCharacterIndent fm;
          fm2 = fm1\<lparr>indentation := increaseNewLineWithIndentLevel (indentation fm1)\<rparr>
      in (fm2, addNewline fm2 query @ equalizeWhitespace (value tok) @ '' ''))"

definition formatWithSpaceAfter :: "token \<Rightarrow> string \<Rightarrow> string" where
  "formatWithSpaceAfter tok query = trimEnd query @ value tok @ '' ''"

definition formatWithoutSpaces :: "token \<Rightarrow> string \<Rightarrow> string" where
  "formatWithoutSpaces tok query = trimEnd query @ value tok"

definition formatWithSpaces :: "token \<Rightarrow> string \<Rightarrow> string" where
  "formatWithSpaces tok query = query @ value tok @ '' ''"

text \<open>
  \<open>tokens[index - 1]\<close> is \<open>undefined\<close> at index 0, and the guard \<open>previousToken &&\<close>
  then skips the trim.
\<close>

definition formatOpeningParentheses ::
  "('ib, 'p) collaborators \<Rightarrow> ('ib, 'p) Formatter \<Rightarrow> token list \<Rightarrow> nat \<Rightarrow> string
     \<Rightarrow> ('ib, 'p) Formatter \<times> string" where
  "formatOpeningParentheses C fm tokens index query =
     (let fm1 = dropMaxCharacterIndent fm;
          query1 = (if index \<noteq> 0 \<and> type (tokens ! (index - 1)) \<noteq> WHITESPACE
                       \<and> type (tokens ! (index - 1)) \<noteq> OPEN_PAREN
                    then trimEnd query else query);
          fm2 = fm1\<lparr>inlineBlock := beginIfPossible C (inlineBlock fm1) tokens index\<rparr>
      in if \<not> isActive C (inlineBlock fm2)
         then (let query2 = addNewline fm2 query1 @ value (tokens ! index);
                   fm3 = fm2\<lparr>indentation := increaseBlockLevel (indentation fm2)\<rparr>
               in (fm3, addNewline fm3 query2))
         else (fm2, query1 @ value (tokens ! index)))"

definition formatClosingParentheses ::
  "('ib, 'p) collaborators \<Rightarrow> ('ib, 'p) Formatter \<Rightarrow> token \<Rightarrow> string
     \<Rightarrow> ('ib, 'p) Formatter \<times> string" where
  "formatClosingParentheses C fm tok query =
     (if isActive C (inlineBlock fm)
      then (fm\<lparr>inlineBlock := endInline C (inlineBlock fm)\<rparr>, formatWithSpaceAfter tok query)
      else (let fm1 = fm\<lparr>indentation := decreaseBlockLevel (indentation fm)\<rparr>
            in (fm1, formatWithSpaces tok (addNewline fm1 query))))"

definition formatPlaceholder ::
  "('ib, 'p) collaborators \<Rightarrow> ('ib, 'p) Formatter \<Rightarrow> token \<Rightarrow> string
     \<Rightarrow> ('ib, 'p) Formatter \<times> string" where
  "formatPlaceholder C fm tok query =
     (let (text, ps) = paramsGet C (params fm) tok
      in (fm\<lparr>params := ps\<rparr>, query @ text @ '' ''))"

text \<open>
  \<open>this.previousReservedWord.value\<close> is \<open>undefined\<close> until a reserved word has been seen;
  the test then reads the text \<open>undefined\<close>, which is no match.
\<close>

definition previousIsLIMIT :: "('ib, 'p) Formatter \<Rightarrow> bool" where
  "previousIsLIMIT fm =
     (case previousReservedWord fm of None \<Rightarrow> False | Some w \<Rightarrow> testLIMIT (value w))"

definition formatComma ::
  "('ib, 'p) collaborators \<Rightarrow> ('ib, 'p) Formatter \<Rightarrow> token \<Rightarrow> string
     \<Rightarrow> ('ib, 'p) Formatter \<times> string" where
  "formatComma C fm tok query =
     (let fm1 = dropMaxCharacterIndent fm
      in if isActive C (inlineBlock fm1) \<or> previousIsLIMIT fm1
         then (fm1, trimEnd query @ value tok @ '' '')
         else (let query1 = trimEnd query @ '' '';
                   fm2 = fm1\<lparr>nextLinePrepend := value tok\<rparr>
               in (fm2, addNewline fm2 query1)))"

section \<open>The loop over the tokens\<close>

text \<open>
  The first statement of the loop body: a pending \<open>nextLinePrepend\<close> is written in
  front of the value of a token that is no comment and no whitespace, in the token
  itself, and then emptied.
\<close>

definition takesPrepend :: "('ib, 'p) Formatter \<Rightarrow> token \<Rightarrow> bool" where
  "takesPrepend fm tok \<longleftrightarrow>
     length (nextLinePrepend fm) \<noteq> 0 \<and> type tok \<noteq> LINE_COMMENT \<and>
     type tok \<noteq> BLOCK_COMMENT \<and> type tok \<noteq> WHITESPACE"

definition prependToken :: "('ib, 'p) Formatter \<Rightarrow> token \<Rightarrow> token" where
  "prependToken fm tok =
     (if takesPrepend fm tok then tok\<lparr>value := nextLinePrepend fm @ value tok\<rparr> else tok)"

definition prependState :: "('ib, 'p) Formatter \<Rightarrow> token \<Rightarrow> ('ib, 'p) Formatter" where
  "prependState fm tok = (if takesPrepend fm tok then fm\<lparr>nextLinePrepend := []\<rparr> else fm)"

text \<open>
  The dispatch, on the token after that statement. \<open>tokens\<close> is the array with this
  token already rewritten, which is what \<open>checkMaxCharacter\<close> and
  \<open>formatOpeningParentheses\<close> read.
\<close>

definition dispatch ::
  "('ib, 'p) collaborators \<Rightarrow> ('ib, 'p) Formatter \<Rightarrow> token list \<Rightarrow> nat \<Rightarrow> string
     \<Rightarrow> ('ib, 'p) Formatter \<times> string" where
  "dispatch C fm tokens index formattedQuery =
     (let tok = tokens ! index in
      if type tok = WHITESPACE then (fm, formattedQuery)
      else if type tok = LINE_COMMENT then formatLineComment fm tok formattedQuery
      else if type tok = BLOCK_COMMENT then (fm, formatBlockComment fm tok formattedQuery)
      else if type tok = RESERVED_TOPLEVEL then
        (let (fm1, q) = formatToplevelReservedWord fm tok formattedQuery
         in (fm1\<lparr>previousReservedWord := Some tok\<rparr>, q))
      else if type tok = RESERVED_NEWLINE then
        (let (fm1, q) = formatNewlineReservedWord fm tok formattedQuery
         in (fm1\<lparr>previousReservedWord := Some tok\<rparr>, q))
      else if type tok = RESERVED_NEWLINE_WITH_INDENT then
        (let (fm1, q) = formatNewlineReservedWordWithIndent fm tok formattedQuery
         in (fm1\<lparr>previousReservedWord := Some tok\<rparr>, q))
      else if type tok = RESERVED then
        (let (fm1, q) = checkMaxCharacter fm tokens index formattedQuery
         in (fm1\<lparr>previousReservedWord := Some tok\<rparr>, formatWithSpaces tok q))
      else if type tok = OPEN_PAREN then formatOpeningParentheses C fm tokens index formattedQuery
      else if type tok = CLOSE_PAREN then formatClosingParentheses C fm tok formattedQuery
      else if type tok = PLACEHOLDER then formatPlaceholder C fm tok formattedQuery
      else if value tok = '','' then formatComma C fm tok formattedQuery
      else if value tok = '':'' then (fm, formatWithSpaceAfter tok formattedQuery)
      else if value tok = ''.'' then (fm, formatWithoutSpaces tok formattedQuery)
      else if value tok = '';'' then (fm, formatWithoutSpaces tok formattedQuery @ [NL, NL])
      else (let (fm1, q) = checkMaxCharacter fm tokens index formattedQuery
            in (fm1, formatWithSpaces tok q)))"

text \<open>
  One turn of \<open>tokens.forEach\<close>: the formatter, the token array (whose elements the
  loop writes to) and the query so far. The array holds one object per token, as a
  tokenizer makes them, so a write to one element changes no other.
\<close>

definition step ::
  "('ib, 'p) collaborators \<Rightarrow> nat \<Rightarrow> ('ib, 'p) Formatter \<times> token list \<times> string
     \<Rightarrow> ('ib, 'p) Formatter \<times> token list \<times> string" where
  "step C index s =
     (case s of (fm, tokens, formattedQuery) \<Rightarrow>
        (let tok = prependToken fm (tokens ! index);
             tokens1 = tokens[index := tok];
             (fm1, q) = dispatch C (prependState fm (tokens ! index)) tokens1 index formattedQuery
         in (fm1, tokens1, q)))"

text \<open>
  \<open>getFormattedQueryFromTokens\<close>: \<open>forEach\<close> visits the indices below the length the
  array has at the call, in order. The result is the formatter and the token array as
  the call leaves them, and the returned query.
\<close>

definition getFormattedQueryFromTokens ::
  "('ib, 'p) collaborators \<Rightarrow> ('ib, 'p) Formatter \<Rightarrow> token list
     \<Rightarrow> ('ib, 'p) Formatter \<times> token list \<times> string" where
  "getFormattedQueryFromTokens C fm tokens = fold (step C) [0..<length tokens] (fm, tokens, [])"

definition format ::
  "('ib, 'p) collaborators \<Rightarrow> ('ib, 'p) Formatter \<Rightarrow> string \<Rightarrow> ('ib, 'p) Formatter \<times> string" where
  "format C fm query =
     (case getFormattedQueryFromTokens C fm (tokenize C query) of
        (fm1, tokens1, formattedQuery) \<Rightarrow> (fm1, trim formattedQuery))"

section \<open>Collaborators for the examples\<close>

text \<open>
  Modelled from the spec: the class \<open>InlineBlock\<close> (src/core/InlineBlock.js is not among
  the sources). A flag; \<open>tryBegin\<close> scans from the token after the opening parenthesis
  to the matching closing one, counting nested parentheses, and sets the flag when the
  region holds no top-level or newline reserved word and no comment and the values from
  the opening to the closing parenthesis are at most 50 characters long together. A
  parenthesis that is never closed does not set it.
\<close>

fun regionToClose :: "token list \<Rightarrow> nat \<Rightarrow> token list option" where
  "regionToClose [] depth = None"
| "regionToClose (t # ts) depth =
     (if type t = CLOSE_PAREN \<and> depth = 0 then Some [t]
      else map_option ((#) t)
             (regionToClose ts
                (if type t = OPEN_PAREN then depth + 1
                 else if type t = CLOSE_PAREN then depth - 1 else depth)))"

definition inlineEligible :: "token list \<Rightarrow> nat \<Rightarrow> bool" where
  "inlineEligible tokens index =
     (case regionToClose (drop (Suc index) tokens) 0 of
        None \<Rightarrow> False
      | Some region \<Rightarrow>
          list_all (\<lambda>t. type t \<noteq> RESERVED_TOPLEVEL \<and> type t \<noteq> RESERVED_NEWLINE \<and>
                         type t \<noteq> LINE_COMMENT \<and> type t \<noteq> BLOCK_COMMENT) region \<and>
          length (value (tokens ! index)) + sum_list (map (\<lambda>t. length (value t)) region) \<le> 50)"

definition tryBegin :: "bool \<Rightarrow> token list \<Rightarrow> nat \<Rightarrow> bool" where
  "tryBegin active tokens index = (active \<or> inlineEligible tokens index)"

text \<open>
  Modelled from the spec: the class \<open>Params\<close> (src/core/Params.js is not among the
  sources), for a positional sequence of substitution values: each placeholder takes the
  next value, and one that finds none left keeps its own text.
\<close>

definition resolve :: "string list \<Rightarrow> token \<Rightarrow> string \<times> string list" where
  "resolve ps tok = (case ps of [] \<Rightarrow> (value tok, []) | v # rest \<Rightarrow> (v, rest))"

text \<open>
  The tokenizer is outside the sources and the spec gives its contract only, so the
  examples name the tokens of each query they format in a table.
\<close>

definition tableTokenizer :: "(string \<times> token list) list \<Rightarrow> string \<Rightarrow> token list" where
  "tableTokenizer table query = (case map_of table query of None \<Rightarrow> [] | Some ts \<Rightarrow> ts)"

definition exampleCollaborators ::
  "(string \<times> token list) list \<Rightarrow> (bool, string list) collaborators" where
  "exampleCollaborators table =
     \<lparr>beginIfPossible = tryBegin, isActive = (\<lambda>active. active), endInline = (\<lambda>active. False),
      paramsGet = resolve, tokenize = tableTokenizer table\<rparr>"

text \<open>A formatter as the constructor leaves it, with the default indent of two spaces.\<close>

definition exampleFormatter :: "string list \<Rightarrow> int \<Rightarrow> (bool, string list) Formatter" where
  "exampleFormatter ps maxChars = newFormatter ''  '' False ps maxChars"

definition tk :: "tokenTypes \<Rightarrow> string \<Rightarrow> token" where
  "tk ty v = \<lparr>type = ty, value = v\<rparr>"

section \<open>Notions the claims are stated with\<close>

text \<open>
  \<open>findAfter v s\<close> is what follows the first occurrence of \<open>v\<close> in \<open>s\<close>, and
  \<open>appearInOrder vs s\<close> says that the texts \<open>vs\<close> occur in \<open>s\<close> one after the other
  without overlap. Taking the first occurrence each time loses nothing: the search
  succeeds exactly when \<open>s\<close> can be cut into the texts, in their order, with anything
  before, between and after them (lemma \<open>appearInOrder_iff\<close>).
\<close>

fun findAfter :: "string \<Rightarrow> string \<Rightarrow> string option" where
  "findAfter v [] = (if v = [] then Some [] else None)"
| "findAfter v (c # cs) =
     (if take (length v) (c # cs) = v then Some (drop (length v) (c # cs)) else findAfter v cs)"

fun appearInOrder :: "string list \<Rightarrow> string \<Rightarrow> bool" where
  "appearInOrder [] s = True"
| "appearInOrder (v # vs) s =
     (case findAfter v s of None \<Rightarrow> False | Some rest \<Rightarrow> appearInOrder vs rest)"

text \<open>A string with its whitespace removed.\<close>

definition strip :: "string \<Rightarrow> string" where
  "strip s = filter (\<lambda>c. \<not> is_space c) s"

text \<open>A line that does not end in a space or a tab.\<close>

definition lineEndsClean :: "string \<Rightarrow> bool" where
  "lineEndsClean l \<longleftrightarrow> l = [] \<or> (last l \<noteq> SP \<and> last l \<noteq> TAB)"

text \<open>A string in which a space or a tab stands right before a line feed.\<close>

fun blankBeforeNL :: "string \<Rightarrow> bool" where
  "blankBeforeNL [] = False"
| "blankBeforeNL [c] = False"
| "blankBeforeNL (c # d # r) = (((c = SP \<or> c = TAB) \<and> d = NL) \<or> blankBeforeNL (d # r))"

text \<open>The tokens that are no whitespace tokens.\<close>

definition nonWhitespace :: "token list \<Rightarrow> token list" where
  "nonWhitespace tokens = filter (\<lambda>t. type t \<noteq> WHITESPACE) tokens"

text \<open>
  What the call may do to a token: nothing to its type, and either nothing to its value
  or a comma in front of it; nothing at all to whitespace and comments.
\<close>

definition tokenKept :: "token \<Rightarrow> token \<Rightarrow> bool" where
  "tokenKept tok tok1 \<longleftrightarrow>
     type tok1 = type tok \<and>
     (value tok1 = value tok \<or> value tok1 = '','' @ value tok) \<and>
     (type tok = WHITESPACE \<or> type tok = LINE_COMMENT \<or> type tok = BLOCK_COMMENT
        \<longrightarrow> tok1 = tok)"

text \<open>The tokens whose text the output must show: no whitespace, no placeholder.\<close>

definition significant :: "token list \<Rightarrow> token list" where
  "significant tokens = filter (\<lambda>t. type t \<noteq> WHITESPACE \<and> type t \<noteq> PLACEHOLDER) tokens"

text \<open>
  Following the spec's words for a reserved word, every run of whitespace collapsed to a
  single space, read from left to right: a whitespace character that begins a run
  becomes one space, one that continues a run is dropped, and any other character is
  kept. \<open>inRun\<close> says that the character before was whitespace. That
  \<open>equalizeWhitespace\<close> computes this is lemma \<open>equalizeWhitespace_collapseSpec\<close>.
\<close>

fun collapseSpec :: "bool \<Rightarrow> string \<Rightarrow> string" where
  "collapseSpec inRun [] = []"
| "collapseSpec inRun (c # cs) =
     (if is_space c then (if inRun then collapseSpec True cs else SP # collapseSpec True cs)
      else c # collapseSpec False cs)"

text \<open>The lines of a text, each but the last with the line feed that ends it.\<close>

fun linesNL :: "string \<Rightarrow> string list" where
  "linesNL [] = [[]]"
| "linesNL (c # cs) =
     (let rest = linesNL cs
      in if c = NL then [NL] # rest else (c # hd rest) # tl rest)"

text \<open>
  The texts by which a token shows in the output. A line comment shows rewritten. A
  block comment shows line by line, each line with its line feed, because the current
  indent is put after every line feed. A top-level, newline or newline-with-indent
  reserved word shows with its runs of whitespace collapsed. Any other token shows as
  its value. Whitespace at the end of a value is left out: the next rule that trims the
  buffer removes it.
\<close>

definition emittedTexts :: "token \<Rightarrow> string list" where
  "emittedTexts t =
     (if type t = LINE_COMMENT then [lineCommentText (value t)]
      else if type t = BLOCK_COMMENT then linesNL (trimEnd (value t))
      else if type t = RESERVED_TOPLEVEL \<or> type t = RESERVED_NEWLINE \<or>
              type t = RESERVED_NEWLINE_WITH_INDENT
        then [trimEnd (collapseSpec False (value t))]
      else [trimEnd (value t)])"

text \<open>
  \<open>commasLand C s ns\<close>: the loop, run from the state \<open>s\<close> over the indices
  \<open>ns\<close>, never reaches a comment with a prefix pending, reaches a placeholder with a
  prefix pending only when the text \<open>Params.get\<close> returns for it holds the prefix,
  and ends with no prefix pending. The prefix is the comma that the comma rule holds
  back for the next token.
\<close>

fun commasLand ::
  "('ib, 'p) collaborators \<Rightarrow> ('ib, 'p) Formatter \<times> token list \<times> string \<Rightarrow> nat list \<Rightarrow> bool" where
  "commasLand C s [] = (nextLinePrepend (fst s) = [])"
| "commasLand C s (n # ns) =
     ((case s of (fm, tokens, q) \<Rightarrow>
         nextLinePrepend fm = [] \<or>
         (type (tokens ! n) \<noteq> LINE_COMMENT \<and> type (tokens ! n) \<noteq> BLOCK_COMMENT \<and>
          (type (tokens ! n) \<noteq> PLACEHOLDER \<or>
           appearInOrder [nextLinePrepend fm]
             (fst (paramsGet C (params fm) (prependToken fm (tokens ! n))))))) \<and>
      commasLand C (step C n s) ns)"

text \<open>
  Two formatters that differ at most in the previous reserved word, and agree on whether
  it matches LIMIT.
\<close>

definition sameStart :: "('ib, 'p) Formatter \<Rightarrow> ('ib, 'p) Formatter \<Rightarrow> bool" where
  "sameStart fm fm1 \<longleftrightarrow>
     indentation fm1 = indentation fm \<and> inlineBlock fm1 = inlineBlock fm \<and>
     params fm1 = params fm \<and> nextLinePrepend fm1 = nextLinePrepend fm \<and>
     maxCharacterPerLine fm1 = maxCharacterPerLine fm \<and>
     previousIsLIMIT fm1 = previousIsLIMIT fm"

text \<open>The four types of reserved words, after which the loop records the token.\<close>

definition reservedType :: "tokenTypes \<Rightarrow> bool" where
  "reservedType ty \<longleftrightarrow>
     ty = RESERVED_TOPLEVEL \<or> ty = RESERVED_NEWLINE \<or> ty = RESERVED_NEWLINE_WITH_INDENT \<or>
     ty = RESERVED"

text \<open>
  A text that brings no blank to the end of a line: no space or tab stands right before
  a line feed in it, and it does not begin with a line feed, which would end the line
  it is appended to.
\<close>

definition cleanText :: "string \<Rightarrow> bool" where
  "cleanText x \<longleftrightarrow> \<not> blankBeforeNL x \<and> (x = [] \<or> hd x \<noteq> NL)"

text \<open>A text with an empty line inside: two line feeds in a row.\<close>

fun emptyLine :: "string \<Rightarrow> bool" where
  "emptyLine [] = False"
| "emptyLine [c] = False"
| "emptyLine (c # d # r) = ((c = NL \<and> d = NL) \<or> emptyLine (d # r))"

text \<open>
  A token whose text brings no blank to the end of a line. Whitespace tokens are
  dropped, and the three kinds of reserved words that start a line are emitted with
  every whitespace character turned into a space, so they need nothing; for a
  placeholder the text that counts is the one \<open>Params.get\<close> returns
  (\<open>resolvedClean\<close>). A line comment is judged as rewritten, and a block comment
  must have no empty line, since the indent is put after each of its line feeds.
\<close>

definition cleanToken :: "token \<Rightarrow> bool" where
  "cleanToken t \<longleftrightarrow>
     (if type t = WHITESPACE \<or> type t = PLACEHOLDER \<or> type t = RESERVED_TOPLEVEL \<or>
         type t = RESERVED_NEWLINE \<or> type t = RESERVED_NEWLINE_WITH_INDENT then True
      else if type t = LINE_COMMENT then cleanText (lineCommentText (value t))
      else if type t = BLOCK_COMMENT then cleanText (value t) \<and> \<not> emptyLine (value t)
      else cleanText (value t))"

text \<open>
  \<open>resolvedClean C s ns\<close>: in the loop run from the state \<open>s\<close> over the indices
  \<open>ns\<close>, every text that \<open>Params.get\<close> returns for a placeholder is such a text.
\<close>

fun resolvedClean ::
  "('ib, 'p) collaborators \<Rightarrow> ('ib, 'p) Formatter \<times> token list \<times> string \<Rightarrow> nat list \<Rightarrow> bool" where
  "resolvedClean C s [] = True"
| "resolvedClean C s (n # ns) =
     ((case s of (fm, tokens, q) \<Rightarrow>
         type (tokens ! n) \<noteq> PLACEHOLDER \<or>
         cleanText (fst (paramsGet C (params fm) (prependToken fm (tokens ! n))))) \<and>
      resolvedClean C (step C n s) ns)"

text \<open>A token sequence whose first token, whitespace tokens aside, is a top-level reserved word.\<close>

definition firstIsToplevel :: "token list \<Rightarrow> bool" where
  "firstIsToplevel tokens =
     (case dropWhile (\<lambda>t. type t = WHITESPACE) tokens of
        [] \<Rightarrow> False
      | t # rest \<Rightarrow> type t = RESERVED_TOPLEVEL)"

section \<open>Basic facts\<close>

subsection \<open>Whitespace at the end of a string\<close>

lemma is_space_SP [simp]: "is_space CHR '' ''"
  by (simp add: is_space_def)

lemma is_space_NL [simp]: "is_space NL"
  by (simp add: is_space_def NL_def)

lemma trimEnd_append_space [simp]: "is_space c \<Longrightarrow> trimEnd (s @ [c]) = trimEnd s"
  by (simp add: trimEnd_def)

lemma trimEnd_trimEnd [simp]: "trimEnd (trimEnd s) = trimEnd s"
  by (simp add: trimEnd_def dropWhile_idem)

lemma trimEnd_Nil [simp]: "trimEnd [] = []"
  by (simp add: trimEnd_def)

lemma trimEnd_decomp: "\<exists>r. s = trimEnd s @ r \<and> (\<forall>c \<in> set r. is_space c)"
proof -
  have "rev s = takeWhile is_space (rev s) @ dropWhile is_space (rev s)"
    by simp
  then have "s = rev (dropWhile is_space (rev s)) @ rev (takeWhile is_space (rev s))"
    by (metis rev_append rev_rev_ident)
  moreover have "\<forall>c \<in> set (rev (takeWhile is_space (rev s))). is_space c"
    by (auto dest: set_takeWhileD)
  ultimately show ?thesis
    unfolding trimEnd_def by blast
qed

lemma trimEnd_last: "trimEnd s \<noteq> [] \<Longrightarrow> \<not> is_space (last (trimEnd s))"
  unfolding trimEnd_def
  by (metis (mono_tags, lifting) dropWhile_eq_Nil_conv hd_dropWhile last_rev rev_is_Nil_conv)

subsection \<open>The fields the steps leave alone\<close>

lemma type_prependToken [simp]: "type (prependToken fm tok) = type tok"
  by (simp add: prependToken_def)

lemma prependState_fields [simp]:
  "indentation (prependState fm tok) = indentation fm"
  "inlineBlock (prependState fm tok) = inlineBlock fm"
  "params (prependState fm tok) = params fm"
  "previousReservedWord (prependState fm tok) = previousReservedWord fm"
  "maxCharacterPerLine (prependState fm tok) = maxCharacterPerLine fm"
  by (simp_all add: prependState_def)

lemma step_unfold:
  "index < length tokens \<Longrightarrow>
   step C index (fm, tokens, query) =
     (case dispatch C (prependState fm (tokens ! index))
             (tokens[index := prependToken fm (tokens ! index)]) index query of
        (fm1, q) \<Rightarrow> (fm1, tokens[index := prependToken fm (tokens ! index)], q))"
  by (simp add: step_def Let_def)

subsection \<open>The branches of the dispatch\<close>

lemma dispatch_WHITESPACE:
  "type (tokens ! index) = WHITESPACE \<Longrightarrow> dispatch C fm tokens index query = (fm, query)"
  by (simp add: dispatch_def Let_def)

lemma dispatch_LINE_COMMENT:
  "type (tokens ! index) = LINE_COMMENT \<Longrightarrow>
   dispatch C fm tokens index query = formatLineComment fm (tokens ! index) query"
  by (simp add: dispatch_def Let_def)

lemma dispatch_BLOCK_COMMENT:
  "type (tokens ! index) = BLOCK_COMMENT \<Longrightarrow>
   dispatch C fm tokens index query = (fm, formatBlockComment fm (tokens ! index) query)"
  by (simp add: dispatch_def Let_def)

lemma dispatch_RESERVED_TOPLEVEL:
  "type (tokens ! index) = RESERVED_TOPLEVEL \<Longrightarrow>
   dispatch C fm tokens index query =
     (case formatToplevelReservedWord fm (tokens ! index) query of
        (fm1, q) \<Rightarrow> (fm1\<lparr>previousReservedWord := Some (tokens ! index)\<rparr>, q))"
  by (simp add: dispatch_def Let_def)

lemma dispatch_RESERVED_NEWLINE:
  "type (tokens ! index) = RESERVED_NEWLINE \<Longrightarrow>
   dispatch C fm tokens index query =
     (case formatNewlineReservedWord fm (tokens ! index) query of
        (fm1, q) \<Rightarrow> (fm1\<lparr>previousReservedWord := Some (tokens ! index)\<rparr>, q))"
  by (simp add: dispatch_def Let_def)

lemma dispatch_RESERVED_NEWLINE_WITH_INDENT:
  "type (tokens ! index) = RESERVED_NEWLINE_WITH_INDENT \<Longrightarrow>
   dispatch C fm tokens index query =
     (case formatNewlineReservedWordWithIndent fm (tokens ! index) query of
        (fm1, q) \<Rightarrow> (fm1\<lparr>previousReservedWord := Some (tokens ! index)\<rparr>, q))"
  by (simp add: dispatch_def Let_def)

lemma dispatch_RESERVED:
  "type (tokens ! index) = RESERVED \<Longrightarrow>
   dispatch C fm tokens index query =
     (case checkMaxCharacter fm tokens index query of
        (fm1, q) \<Rightarrow> (fm1\<lparr>previousReservedWord := Some (tokens ! index)\<rparr>,
                      formatWithSpaces (tokens ! index) q))"
  by (simp add: dispatch_def Let_def)

lemma dispatch_OPEN_PAREN:
  "type (tokens ! index) = OPEN_PAREN \<Longrightarrow>
   dispatch C fm tokens index query = formatOpeningParentheses C fm tokens index query"
  by (simp add: dispatch_def Let_def)

lemma dispatch_CLOSE_PAREN:
  "type (tokens ! index) = CLOSE_PAREN \<Longrightarrow>
   dispatch C fm tokens index query = formatClosingParentheses C fm (tokens ! index) query"
  by (simp add: dispatch_def Let_def)

lemma dispatch_PLACEHOLDER:
  "type (tokens ! index) = PLACEHOLDER \<Longrightarrow>
   dispatch C fm tokens index query = formatPlaceholder C fm (tokens ! index) query"
  by (simp add: dispatch_def Let_def)

lemma dispatch_plain:
  "type (tokens ! index) = PUNCTUATION \<or> type (tokens ! index) = OTHER \<Longrightarrow>
   dispatch C fm tokens index query =
     (if value (tokens ! index) = '','' then formatComma C fm (tokens ! index) query
      else if value (tokens ! index) = '':'' then (fm, formatWithSpaceAfter (tokens ! index) query)
      else if value (tokens ! index) = ''.'' then (fm, formatWithoutSpaces (tokens ! index) query)
      else if value (tokens ! index) = '';''
        then (fm, formatWithoutSpaces (tokens ! index) query @ [NL, NL])
      else (case checkMaxCharacter fm tokens index query of
              (fm1, q) \<Rightarrow> (fm1, formatWithSpaces (tokens ! index) q)))"
  by (auto simp add: dispatch_def Let_def)

lemmas dispatch_branches =
  dispatch_WHITESPACE dispatch_LINE_COMMENT dispatch_BLOCK_COMMENT dispatch_RESERVED_TOPLEVEL
  dispatch_RESERVED_NEWLINE dispatch_RESERVED_NEWLINE_WITH_INDENT dispatch_RESERVED
  dispatch_OPEN_PAREN dispatch_CLOSE_PAREN dispatch_PLACEHOLDER dispatch_plain

subsection \<open>Whitespace removed\<close>

lemma strip_append [simp]: "strip (a @ b) = strip a @ strip b"
  by (simp add: strip_def)

lemma strip_Nil [simp]: "strip [] = []"
  by (simp add: strip_def)

lemma strip_Cons [simp]: "strip (c # s) = (if is_space c then strip s else c # strip s)"
  by (simp add: strip_def)

lemma strip_spaces: "\<forall>c \<in> set s. is_space c \<Longrightarrow> strip s = []"
  by (induction s) auto

lemma strip_trimEnd [simp]: "strip (trimEnd s) = strip s"
proof -
  obtain r where r: "s = trimEnd s @ r" "\<forall>c \<in> set r. is_space c"
    using trimEnd_decomp by blast
  have "strip s = strip (trimEnd s) @ strip r"
    using r(1) by (metis strip_append)
  then show ?thesis
    using r(2) by (simp add: strip_spaces)
qed

lemma strip_dropWhile [simp]: "strip (dropWhile is_space s) = strip s"
  by (induction s) auto

lemma strip_equalizeWhitespace [simp]: "strip (equalizeWhitespace v) = strip v"
  by (induction v rule: equalizeWhitespace.induct) (auto simp add: SP_def)

lemma strip_concat_replicate: "\<forall>c \<in> set u. is_space c \<Longrightarrow> strip (concat (replicate n u)) = []"
  by (induction n) (auto simp add: strip_spaces)

lemma strip_getIndent: "\<forall>c \<in> set (indent i). is_space c \<Longrightarrow> strip (getIndent i) = []"
  by (simp add: getIndent_def strip_concat_replicate)

subsection \<open>Blanks before a line feed\<close>

lemma blankBeforeNL_no_NL: "NL \<notin> set s \<Longrightarrow> \<not> blankBeforeNL s"
  by (induction s rule: blankBeforeNL.induct) auto

lemma blankBeforeNL_append_text:
  "\<not> blankBeforeNL s \<Longrightarrow> NL \<notin> set b \<Longrightarrow> \<not> blankBeforeNL (s @ b)"
proof (induction s rule: blankBeforeNL.induct)
  case 1
  then show ?case by (simp add: blankBeforeNL_no_NL)
next
  case (2 c)
  then show ?case
    by (cases b) (auto simp add: blankBeforeNL_no_NL)
next
  case (3 c d r)
  then show ?case by auto
qed

lemma blankBeforeNL_prefix: "blankBeforeNL a \<Longrightarrow> blankBeforeNL (a @ b)"
proof (induction a rule: blankBeforeNL.induct)
  case (3 c d r)
  then show ?case by auto
qed auto

lemma blankBeforeNL_Cons: "blankBeforeNL s \<Longrightarrow> blankBeforeNL (c # s)"
  by (cases s) auto

lemma blankBeforeNL_suffix: "blankBeforeNL b \<Longrightarrow> blankBeforeNL (a @ b)"
  by (induction a) (auto simp add: blankBeforeNL_Cons)

lemma blankBeforeNL_trimEnd: "\<not> blankBeforeNL s \<Longrightarrow> \<not> blankBeforeNL (trimEnd s)"
  by (metis blankBeforeNL_prefix trimEnd_decomp)

lemma blankBeforeNL_snoc_NL':
  "\<not> blankBeforeNL s \<Longrightarrow> s = [] \<or> (last s \<noteq> SP \<and> last s \<noteq> TAB) \<Longrightarrow>
   \<not> blankBeforeNL (s @ [NL])"
proof (induction s rule: blankBeforeNL.induct)
  case (2 c)
  then show ?case by auto
next
  case (3 c d r)
  then show ?case by auto
qed auto

lemma blankBeforeNL_snoc_NL:
  "\<not> blankBeforeNL s \<Longrightarrow> s = [] \<or> \<not> is_space (last s) \<Longrightarrow> \<not> blankBeforeNL (s @ [NL])"
  by (rule blankBeforeNL_snoc_NL') (auto simp add: is_space_def SP_def TAB_def)

lemma blankBeforeNL_addNewline_text:
  assumes "\<not> blankBeforeNL s" and "NL \<notin> set b"
  shows "\<not> blankBeforeNL (trimEnd s @ NL # b)"
proof -
  have "\<not> blankBeforeNL (trimEnd s @ [NL])"
    using assms(1) trimEnd_last [of s] by (intro blankBeforeNL_snoc_NL blankBeforeNL_trimEnd) auto
  then have "\<not> blankBeforeNL ((trimEnd s @ [NL]) @ b)"
    using assms(2) by (rule blankBeforeNL_append_text)
  then show ?thesis by simp
qed

lemma NL_not_SP [simp]: "NL \<noteq> SP"
  by (simp add: NL_def SP_def)

lemma equalizeWhitespace_no_NL: "NL \<notin> set (equalizeWhitespace v)"
  by (induction v rule: equalizeWhitespace.induct) auto

lemma concat_replicate_no_NL: "NL \<notin> set u \<Longrightarrow> NL \<notin> set (concat (replicate n u))"
  by (induction n) auto

lemma getIndent_no_NL: "NL \<notin> set (indent i) \<Longrightarrow> NL \<notin> set (getIndent i)"
  by (simp add: getIndent_def concat_replicate_no_NL)

subsection \<open>Lines\<close>

lemma split_nl_not_Nil [simp]: "split_nl s \<noteq> []"
  by (induction s) (auto simp add: Let_def)

lemma hd_split_nl_Nil: "hd (split_nl s) = [] \<longleftrightarrow> s = [] \<or> hd s = NL"
  by (cases s) (auto simp add: Let_def)

lemma lines_clean:
  "\<not> blankBeforeNL s \<Longrightarrow> s = [] \<or> \<not> is_space (last s) \<Longrightarrow> list_all lineEndsClean (split_nl s)"
proof (induction s)
  case Nil
  then show ?case by (simp add: lineEndsClean_def)
next
  case (Cons c cs)
  have nb: "\<not> blankBeforeNL cs"
    using Cons.prems(1) blankBeforeNL_Cons by blast
  have lst: "cs = [] \<or> \<not> is_space (last cs)"
    using Cons.prems(2) by auto
  have ih: "list_all lineEndsClean (split_nl cs)"
    using Cons.IH nb lst by blast
  show ?case
  proof (cases "c = NL")
    case True
    have "lineEndsClean []"
      by (simp add: lineEndsClean_def)
    then show ?thesis
      using ih True by (simp add: Let_def)
  next
    case False
    have hdc: "lineEndsClean (hd (split_nl cs))"
      using ih by (cases "split_nl cs") auto
    have tlc: "list_all lineEndsClean (tl (split_nl cs))"
      using ih by (cases "split_nl cs") auto
    have "lineEndsClean (c # hd (split_nl cs))"
    proof (cases "hd (split_nl cs) = []")
      case True
      then consider "cs = []" | "cs \<noteq> []" "hd cs = NL"
        using hd_split_nl_Nil by blast
      then show ?thesis
      proof cases
        case 1
        then show ?thesis
          using Cons.prems(2) True by (auto simp add: lineEndsClean_def is_space_def SP_def TAB_def)
      next
        case 2
        then obtain r where "cs = NL # r"
          by (cases cs) auto
        then show ?thesis
          using Cons.prems(1) True by (auto simp add: lineEndsClean_def)
      qed
    next
      case False
      then show ?thesis
        using hdc by (simp add: lineEndsClean_def)
    qed
    then show ?thesis
      using False tlc by (simp add: Let_def)
  qed
qed

lemma trim_ends: "trim s = [] \<or> (\<not> is_space (hd (trim s)) \<and> \<not> is_space (last (trim s)))"
proof (cases "trim s = []")
  case True
  then show ?thesis by simp
next
  case False
  have l: "\<not> is_space (last (trim s))"
    using False trimEnd_last [of "dropWhile is_space s"] by (simp add: trim_def)
  obtain r where r: "dropWhile is_space s = trim s @ r"
    using trimEnd_decomp [of "dropWhile is_space s"] by (auto simp add: trim_def)
  have "dropWhile is_space s \<noteq> []"
  proof
    assume "dropWhile is_space s = []"
    then have "trim s = []"
      unfolding trim_def by (simp only: trimEnd_Nil)
    with False show False by simp
  qed
  then have "\<not> is_space (hd (dropWhile is_space s))"
    by (rule hd_dropWhile)
  moreover have "hd (dropWhile is_space s) = hd (trim s)"
    using r False by (metis hd_append2)
  ultimately show ?thesis
    using l by simp
qed

lemma blankBeforeNL_trim: "\<not> blankBeforeNL s \<Longrightarrow> \<not> blankBeforeNL (trim s)"
proof -
  assume a: "\<not> blankBeforeNL s"
  have "s = takeWhile is_space s @ dropWhile is_space s"
    by simp
  then have "\<not> blankBeforeNL (dropWhile is_space s)"
    using a by (metis blankBeforeNL_suffix)
  then show ?thesis
    by (simp add: trim_def blankBeforeNL_trimEnd)
qed

subsection \<open>What the rules leave alone\<close>

lemma indent_ops [simp]:
  "indent (increaseToplevel i) = indent i"
  "indent (decreaseTopLevel i) = indent i"
  "indent (increaseBlockLevel i) = indent i"
  "indent (decreaseBlockLevel i) = indent i"
  "indent (increaseNewLineWithIndentLevel i) = indent i"
  "indent (decreaseNewLineWithIndentLevel i) = indent i"
  "indent (increaseMaxCharacterLevel i) = indent i"
  "indent (decreaseAllMaxCharacterLevel i) = indent i"
  by (simp_all add: increaseToplevel_def decreaseTopLevel_def increaseBlockLevel_def
      decreaseBlockLevel_def increaseNewLineWithIndentLevel_def decreaseNewLineWithIndentLevel_def
      increaseMaxCharacterLevel_def decreaseAllMaxCharacterLevel_def)

lemma dropMaxCharacterIndent_fields [simp]:
  "indentation (dropMaxCharacterIndent fm) = decreaseAllMaxCharacterLevel (indentation fm)"
  "inlineBlock (dropMaxCharacterIndent fm) = inlineBlock fm"
  "params (dropMaxCharacterIndent fm) = params fm"
  "previousReservedWord (dropMaxCharacterIndent fm) = previousReservedWord fm"
  "nextLinePrepend (dropMaxCharacterIndent fm) = nextLinePrepend fm"
  "maxCharacterPerLine (dropMaxCharacterIndent fm) = maxCharacterPerLine fm"
  by (simp_all add: dropMaxCharacterIndent_def)

lemma frame_formatLineComment [simp]:
  "nextLinePrepend (fst (formatLineComment fm tok q)) = nextLinePrepend fm"
  "indent (indentation (fst (formatLineComment fm tok q))) = indent (indentation fm)"
  by (simp_all add: formatLineComment_def Let_def)

lemma frame_formatToplevelReservedWord [simp]:
  "nextLinePrepend (fst (formatToplevelReservedWord fm tok q)) = nextLinePrepend fm"
  "indent (indentation (fst (formatToplevelReservedWord fm tok q))) = indent (indentation fm)"
  by (simp_all add: formatToplevelReservedWord_def Let_def)

lemma frame_formatNewlineReservedWord [simp]:
  "nextLinePrepend (fst (formatNewlineReservedWord fm tok q)) = nextLinePrepend fm"
  "indent (indentation (fst (formatNewlineReservedWord fm tok q))) = indent (indentation fm)"
  by (simp_all add: formatNewlineReservedWord_def Let_def)

lemma frame_formatNewlineReservedWordWithIndent [simp]:
  "nextLinePrepend (fst (formatNewlineReservedWordWithIndent fm tok q)) = nextLinePrepend fm"
  "indent (indentation (fst (formatNewlineReservedWordWithIndent fm tok q))) = indent (indentation fm)"
  by (simp_all add: formatNewlineReservedWordWithIndent_def Let_def)

lemma frame_checkMaxCharacter [simp]:
  "nextLinePrepend (fst (checkMaxCharacter fm tokens index q)) = nextLinePrepend fm"
  "indent (indentation (fst (checkMaxCharacter fm tokens index q))) = indent (indentation fm)"
  by (simp_all add: checkMaxCharacter_def Let_def)

lemma frame_formatOpeningParentheses [simp]:
  "nextLinePrepend (fst (formatOpeningParentheses C fm tokens index q)) = nextLinePrepend fm"
  "indent (indentation (fst (formatOpeningParentheses C fm tokens index q))) = indent (indentation fm)"
  by (simp_all add: formatOpeningParentheses_def Let_def)

lemma frame_formatClosingParentheses [simp]:
  "nextLinePrepend (fst (formatClosingParentheses C fm tok q)) = nextLinePrepend fm"
  "indent (indentation (fst (formatClosingParentheses C fm tok q))) = indent (indentation fm)"
  by (simp_all add: formatClosingParentheses_def Let_def)

lemma frame_formatPlaceholder [simp]:
  "nextLinePrepend (fst (formatPlaceholder C fm tok q)) = nextLinePrepend fm"
  "indent (indentation (fst (formatPlaceholder C fm tok q))) = indent (indentation fm)"
  by (simp_all add: formatPlaceholder_def Let_def split: prod.splits)

lemma frame_formatComma [simp]:
  "indent (indentation (fst (formatComma C fm tok q))) = indent (indentation fm)"
  by (simp add: formatComma_def Let_def)

lemma nextLinePrepend_formatComma:
  "nextLinePrepend (fst (formatComma C fm tok q)) = nextLinePrepend fm \<or>
   nextLinePrepend (fst (formatComma C fm tok q)) = value tok"
  by (simp add: formatComma_def Let_def)

lemma indent_dispatch [simp]:
  "indent (indentation (fst (dispatch C fm tokens index q))) = indent (indentation fm)"
  by (cases "type (tokens ! index)") (simp_all add: dispatch_branches case_prod_beta)

lemma nextLinePrepend_dispatch:
  "nextLinePrepend (fst (dispatch C fm tokens index q)) = nextLinePrepend fm \<or>
   nextLinePrepend (fst (dispatch C fm tokens index q)) = '',''"
proof (cases "type (tokens ! index)")
  case PUNCTUATION
  then show ?thesis
    using nextLinePrepend_formatComma [of C fm "tokens ! index" q]
    by (auto simp add: dispatch_plain case_prod_beta)
next
  case OTHER
  then show ?thesis
    using nextLinePrepend_formatComma [of C fm "tokens ! index" q]
    by (auto simp add: dispatch_plain case_prod_beta)
qed (simp_all add: dispatch_branches case_prod_beta)

subsection \<open>The token array after the loop\<close>

lemma fold_step_Suc:
  "fold (step C) [0..<Suc n] s = step C n (fold (step C) [0..<n] s)"
  by simp

lemma tokenKept_prependToken:
  "nextLinePrepend fm = [] \<or> nextLinePrepend fm = '','' \<Longrightarrow> tokenKept tok (prependToken fm tok)"
  by (auto simp add: tokenKept_def prependToken_def takesPrepend_def)

lemma nextLinePrepend_prependState:
  "nextLinePrepend (prependState fm tok) = [] \<or>
   nextLinePrepend (prependState fm tok) = nextLinePrepend fm"
  by (simp add: prependState_def)

lemma tokens_fold_step:
  assumes "nextLinePrepend fm = [] \<or> nextLinePrepend fm = '',''"
    and "n \<le> length tokens"
  shows "case fold (step C) [0..<n] (fm, tokens, []) of (fm1, tokens1, q) \<Rightarrow>
      length tokens1 = length tokens \<and>
      (nextLinePrepend fm1 = [] \<or> nextLinePrepend fm1 = '','') \<and>
      (\<forall>i. n \<le> i \<longrightarrow> i < length tokens \<longrightarrow> tokens1 ! i = tokens ! i) \<and>
      (\<forall>i < n. tokenKept (tokens ! i) (tokens1 ! i))"
  using assms(2)
proof (induction n)
  case 0
  then show ?case
    using assms(1) by simp
next
  case (Suc n)
  obtain fm1 tokens1 q where run: "fold (step C) [0..<n] (fm, tokens, []) = (fm1, tokens1, q)"
    by (cases "fold (step C) [0..<n] (fm, tokens, [])") auto
  have ih: "length tokens1 = length tokens"
    "nextLinePrepend fm1 = [] \<or> nextLinePrepend fm1 = '',''"
    "\<And>i. n \<le> i \<Longrightarrow> i < length tokens \<Longrightarrow> tokens1 ! i = tokens ! i"
    "\<And>i. i < n \<Longrightarrow> tokenKept (tokens ! i) (tokens1 ! i)"
    using Suc run by auto
  have n: "n < length tokens1"
    using Suc.prems ih(1) by simp
  let ?tok = "prependToken fm1 (tokens1 ! n)"
  let ?d = "dispatch C (prependState fm1 (tokens1 ! n)) (tokens1[n := ?tok]) n q"
  have st: "step C n (fm1, tokens1, q) = (fst ?d, tokens1[n := ?tok], snd ?d)"
    using n by (simp add: step_unfold case_prod_beta)
  have np: "nextLinePrepend (fst ?d) = [] \<or> nextLinePrepend (fst ?d) = '',''"
    using nextLinePrepend_dispatch [of C "prependState fm1 (tokens1 ! n)" "tokens1[n := ?tok]" n q]
      nextLinePrepend_prependState [of fm1 "tokens1 ! n"] ih(2)
    by auto
  have same: "tokens1 ! n = tokens ! n"
    using ih(3) [of n] Suc.prems by simp
  have kept: "tokenKept (tokens ! n) ?tok"
    using tokenKept_prependToken [OF ih(2)] same by simp
  have later: "\<forall>i. Suc n \<le> i \<longrightarrow> i < length tokens \<longrightarrow> (tokens1[n := ?tok]) ! i = tokens ! i"
    using ih(3) by simp
  have earlier: "\<forall>i < Suc n. tokenKept (tokens ! i) ((tokens1[n := ?tok]) ! i)"
  proof (intro allI impI)
    fix i assume "i < Suc n"
    then consider "i < n" | "i = n" by linarith
    then show "tokenKept (tokens ! i) ((tokens1[n := ?tok]) ! i)"
    proof cases
      case 1
      then show ?thesis using ih(4) by simp
    next
      case 2
      then show ?thesis using kept n by simp
    qed
  qed
  show ?case
    using np later earlier ih(1)
    by (simp only: fold_step_Suc run st prod.case length_list_update)
qed

subsection \<open>An induction rule for the loop\<close>

lemma fold_step_later:
  assumes "n \<le> length tokens"
  shows "case fold (step C) [0..<n] (fm, tokens, []) of (fm1, tokens1, q) \<Rightarrow>
      length tokens1 = length tokens \<and>
      (\<forall>i. n \<le> i \<longrightarrow> i < length tokens \<longrightarrow> tokens1 ! i = tokens ! i)"
  using assms
proof (induction n)
  case 0
  then show ?case by simp
next
  case (Suc n)
  obtain fm1 tokens1 q where run: "fold (step C) [0..<n] (fm, tokens, []) = (fm1, tokens1, q)"
    by (cases "fold (step C) [0..<n] (fm, tokens, [])") auto
  have ih: "length tokens1 = length tokens"
    "\<And>i. n \<le> i \<Longrightarrow> i < length tokens \<Longrightarrow> tokens1 ! i = tokens ! i"
    using Suc run by auto
  have n: "n < length tokens1"
    using Suc.prems ih(1) by simp
  show ?case
    using ih n by (simp only: fold_step_Suc run) (simp add: step_unfold case_prod_beta)
qed

lemma fold_step_induct:
  assumes base: "P 0 fm tokens []"
    and step: "\<And>n fm1 tokens1 q. n < length tokens \<Longrightarrow> length tokens1 = length tokens \<Longrightarrow>
        P n fm1 tokens1 q \<Longrightarrow>
        P (Suc n)
          (fst (dispatch C (prependState fm1 (tokens ! n))
                  (tokens1[n := prependToken fm1 (tokens ! n)]) n q))
          (tokens1[n := prependToken fm1 (tokens ! n)])
          (snd (dispatch C (prependState fm1 (tokens ! n))
                  (tokens1[n := prependToken fm1 (tokens ! n)]) n q))"
    and n: "n \<le> length tokens"
  shows "case fold (step C) [0..<n] (fm, tokens, []) of (fm1, tokens1, q) \<Rightarrow> P n fm1 tokens1 q"
  using n
proof (induction n)
  case 0
  then show ?case using base by simp
next
  case (Suc n)
  obtain fm1 tokens1 q where run: "fold (step C) [0..<n] (fm, tokens, []) = (fm1, tokens1, q)"
    by (cases "fold (step C) [0..<n] (fm, tokens, [])") auto
  have later: "length tokens1 = length tokens" "tokens1 ! n = tokens ! n"
    using fold_step_later [of n tokens C fm] Suc.prems run by auto
  have ih: "P n fm1 tokens1 q"
    using Suc run by auto
  have n: "n < length tokens"
    using Suc.prems by simp
  have "step C n (fm1, tokens1, q) =
      (fst (dispatch C (prependState fm1 (tokens ! n))
                  (tokens1[n := prependToken fm1 (tokens ! n)]) n q),
       tokens1[n := prependToken fm1 (tokens ! n)],
       snd (dispatch C (prependState fm1 (tokens ! n))
                  (tokens1[n := prependToken fm1 (tokens ! n)]) n q))"
    using n later by (simp add: step_unfold case_prod_beta)
  then show ?case
    using step [OF n later(1) ih] by (simp only: fold_step_Suc run prod.case)
qed

lemma loop_induct:
  assumes base: "P 0 (fm, tokens, [])"
    and step: "\<And>n fm1 tokens1 q. n < length tokens \<Longrightarrow>
        fold (step C) [0..<n] (fm, tokens, []) = (fm1, tokens1, q) \<Longrightarrow>
        length tokens1 = length tokens \<Longrightarrow> tokens1 ! n = tokens ! n \<Longrightarrow>
        P n (fm1, tokens1, q) \<Longrightarrow> P (Suc n) (step C n (fm1, tokens1, q))"
    and n: "n \<le> length tokens"
  shows "P n (fold (step C) [0..<n] (fm, tokens, []))"
  using n
proof (induction n)
  case 0
  then show ?case using base by simp
next
  case (Suc n)
  obtain fm1 tokens1 q where run: "fold (step C) [0..<n] (fm, tokens, []) = (fm1, tokens1, q)"
    by (cases "fold (step C) [0..<n] (fm, tokens, [])") auto
  have later: "length tokens1 = length tokens" "tokens1 ! n = tokens ! n"
    using fold_step_later [of n tokens C fm] Suc.prems run by auto
  have ih: "P n (fm1, tokens1, q)"
    using Suc run by auto
  have n: "n < length tokens"
    using Suc.prems by simp
  show ?case
    using step [OF n run later ih] by (simp only: fold_step_Suc run)
qed

subsection \<open>Texts found in order\<close>

lemma findAfter_Some:
  "findAfter v s = Some r \<Longrightarrow> \<exists>p. s = p @ v @ r"
proof (induction s)
  case Nil
  then show ?case by (auto split: if_splits)
next
  case (Cons c cs)
  show ?case
  proof (cases "take (length v) (c # cs) = v")
    case True
    then have "r = drop (length v) (c # cs)"
      using Cons.prems by simp
    then have "c # cs = [] @ v @ r"
      using True by (metis append_Nil append_take_drop_id)
    then show ?thesis by blast
  next
    case False
    then have "findAfter v cs = Some r"
      using Cons.prems by simp
    then obtain p where "cs = p @ v @ r"
      using Cons.IH by blast
    then have "c # cs = (c # p) @ v @ r"
      by simp
    then show ?thesis by blast
  qed
qed

lemma findAfter_first:
  "s = p @ v @ r \<Longrightarrow> \<exists>x. findAfter v s = Some (x @ r)"
proof (induction p arbitrary: s)
  case Nil
  show ?case
  proof (cases s)
    case Nil
    then show ?thesis using Nil.prems by simp
  next
    case (Cons c cs)
    have "take (length v) s = v" "drop (length v) s = r"
      using Nil.prems by simp_all
    then show ?thesis
      using Cons by (metis append_Nil findAfter.simps(2))
  qed
next
  case (Cons a p)
  then obtain cs where s: "s = a # cs" "cs = p @ v @ r"
    by simp
  show ?case
  proof (cases "take (length v) s = v")
    case True
    have "drop (length v) (((a # p) @ v) @ r) = drop (length v) ((a # p) @ v) @ r"
      unfolding drop_append by simp
    then have "drop (length v) s = drop (length v) ((a # p) @ v) @ r"
      using Cons.prems by simp
    then show ?thesis
      using True s(1) by (metis findAfter.simps(2))
  next
    case False
    then have "findAfter v s = findAfter v cs"
      using s(1) by simp
    then show ?thesis
      using Cons.IH [OF s(2)] by simp
  qed
qed

lemma appearInOrder_suffix:
  "appearInOrder vs r \<Longrightarrow> appearInOrder vs (x @ r)"
proof (induction vs arbitrary: r x)
  case Nil
  then show ?case by simp
next
  case (Cons v vs)
  then obtain r1 where r1: "findAfter v r = Some r1" "appearInOrder vs r1"
    by (auto split: option.splits)
  obtain p where "r = p @ v @ r1"
    using findAfter_Some [OF r1(1)] by blast
  then have "x @ r = (x @ p) @ v @ r1"
    by simp
  then obtain y where "findAfter v (x @ r) = Some (y @ r1)"
    using findAfter_first by blast
  then show ?case
    using Cons.IH [OF r1(2)] by simp
qed

lemma appearInOrder_iff:
  "appearInOrder vs s \<longleftrightarrow>
     (\<exists>ps r. length ps = length vs \<and> s = concat (map (\<lambda>(p, v). p @ v) (zip ps vs)) @ r)"
proof (induction vs arbitrary: s)
  case Nil
  then show ?case by simp
next
  case (Cons v vs)
  show ?case
  proof
    assume "appearInOrder (v # vs) s"
    then obtain r1 where r1: "findAfter v s = Some r1" "appearInOrder vs r1"
      by (auto split: option.splits)
    obtain p where p: "s = p @ v @ r1"
      using findAfter_Some [OF r1(1)] by blast
    obtain ps r where "length ps = length vs"
        "r1 = concat (map (\<lambda>(p, v). p @ v) (zip ps vs)) @ r"
      using Cons.IH r1(2) by blast
    then have "length (p # ps) = length (v # vs) \<and>
        s = concat (map (\<lambda>(p, v). p @ v) (zip (p # ps) (v # vs))) @ r"
      using p by simp
    then show "\<exists>ps r. length ps = length (v # vs) \<and>
        s = concat (map (\<lambda>(p, v). p @ v) (zip ps (v # vs))) @ r"
      by blast
  next
    assume "\<exists>ps r. length ps = length (v # vs) \<and>
        s = concat (map (\<lambda>(p, v). p @ v) (zip ps (v # vs))) @ r"
    then obtain ps r where a: "length ps = length (v # vs)"
        "s = concat (map (\<lambda>(p, v). p @ v) (zip ps (v # vs))) @ r"
      by blast
    then obtain p ps1 where ps: "ps = p # ps1" "length ps1 = length vs"
      by (cases ps) auto
    let ?r1 = "concat (map (\<lambda>(p, v). p @ v) (zip ps1 vs)) @ r"
    have s: "s = p @ v @ ?r1"
      using a(2) ps(1) by simp
    have "appearInOrder vs ?r1"
      using Cons.IH ps(2) by blast
    moreover obtain x where "findAfter v s = Some (x @ ?r1)"
      using findAfter_first [OF s] by blast
    ultimately show "appearInOrder (v # vs) s"
      using appearInOrder_suffix by simp
  qed
qed

lemma appearInOrder_extend:
  assumes "appearInOrder vs s"
  shows "appearInOrder vs (s @ x)"
proof -
  obtain ps r where "length ps = length vs" "s = concat (map (\<lambda>(p, v). p @ v) (zip ps vs)) @ r"
    using assms appearInOrder_iff by blast
  then have "length ps = length vs \<and>
      s @ x = concat (map (\<lambda>(p, v). p @ v) (zip ps vs)) @ (r @ x)"
    by simp
  then show ?thesis
    using appearInOrder_iff by blast
qed

lemma appearInOrder_snoc:
  assumes "appearInOrder vs s"
  shows "appearInOrder (vs @ [v]) (s @ v)"
proof -
  obtain ps r where a: "length ps = length vs"
      "s = concat (map (\<lambda>(p, v). p @ v) (zip ps vs)) @ r"
    using assms appearInOrder_iff by blast
  have "zip (ps @ [r]) (vs @ [v]) = zip ps vs @ [(r, v)]"
    using a(1) by simp
  then have "length (ps @ [r]) = length (vs @ [v]) \<and>
      s @ v = concat (map (\<lambda>(p, v). p @ v) (zip (ps @ [r]) (vs @ [v]))) @ []"
    using a by simp
  then show ?thesis
    using appearInOrder_iff by blast
qed

lemma findAfter_prefix: "findAfter v (v @ r) = Some r"
proof (cases "v @ r")
  case Nil
  then show ?thesis by simp
next
  case (Cons c cs)
  have "take (length v) (v @ r) = v" "drop (length v) (v @ r) = r"
    by simp_all
  then show ?thesis
    using Cons by (metis findAfter.simps(2))
qed

lemma appearInOrder_append:
  "appearInOrder a s \<Longrightarrow> appearInOrder b t \<Longrightarrow> appearInOrder (a @ b) (s @ t)"
proof (induction a arbitrary: s)
  case Nil
  then show ?case by (simp add: appearInOrder_suffix)
next
  case (Cons v vs)
  then obtain r1 where r1: "findAfter v s = Some r1" "appearInOrder vs r1"
    by (auto split: option.splits)
  obtain p where "s = p @ v @ r1"
    using findAfter_Some [OF r1(1)] by blast
  then have "s @ t = p @ v @ (r1 @ t)"
    by simp
  then obtain x where "findAfter v (s @ t) = Some (x @ r1 @ t)"
    using findAfter_first by blast
  moreover have "appearInOrder (vs @ b) (x @ r1 @ t)"
    using Cons.IH [OF r1(2) Cons.prems(2)] by (rule appearInOrder_suffix)
  ultimately show ?case by simp
qed

subsection \<open>The text of the output, whitespace aside\<close>

lemma strip_addNewline:
  "\<forall>c \<in> set (indent (indentation fm)). is_space c \<Longrightarrow> strip (addNewline fm q) = strip q"
  by (simp add: addNewline_def strip_getIndent)

lemma strip_formatToplevelReservedWord:
  "\<forall>c \<in> set (indent (indentation fm)). is_space c \<Longrightarrow>
   strip (snd (formatToplevelReservedWord fm tok q)) = strip q @ strip (value tok)"
  by (simp add: formatToplevelReservedWord_def Let_def strip_addNewline)

lemma strip_formatNewlineReservedWord:
  "\<forall>c \<in> set (indent (indentation fm)). is_space c \<Longrightarrow>
   strip (snd (formatNewlineReservedWord fm tok q)) = strip q @ strip (value tok)"
  by (simp add: formatNewlineReservedWord_def Let_def strip_addNewline)

lemma strip_formatNewlineReservedWordWithIndent:
  "\<forall>c \<in> set (indent (indentation fm)). is_space c \<Longrightarrow>
   strip (snd (formatNewlineReservedWordWithIndent fm tok q)) = strip q @ strip (value tok)"
  by (simp add: formatNewlineReservedWordWithIndent_def Let_def strip_addNewline)

lemma strip_checkMaxCharacter:
  "\<forall>c \<in> set (indent (indentation fm)). is_space c \<Longrightarrow>
   strip (snd (checkMaxCharacter fm tokens index q)) = strip q"
  by (simp add: checkMaxCharacter_def Let_def strip_addNewline)

lemma strip_formatOpeningParentheses:
  "\<forall>c \<in> set (indent (indentation fm)). is_space c \<Longrightarrow>
   strip (snd (formatOpeningParentheses C fm tokens index q)) = strip q @ strip (value (tokens ! index))"
  by (simp add: formatOpeningParentheses_def Let_def strip_addNewline)

lemma strip_formatClosingParentheses:
  "\<forall>c \<in> set (indent (indentation fm)). is_space c \<Longrightarrow>
   strip (snd (formatClosingParentheses C fm tok q)) = strip q @ strip (value tok)"
  by (simp add: formatClosingParentheses_def Let_def strip_addNewline formatWithSpaceAfter_def
      formatWithSpaces_def)

lemma strip_formatPlaceholder:
  "strip (snd (formatPlaceholder C fm tok q)) = strip q @ strip (fst (paramsGet C (params fm) tok))"
  by (simp add: formatPlaceholder_def case_prod_beta)

lemma strip_formatComma:
  "\<forall>c \<in> set (indent (indentation fm)). is_space c \<Longrightarrow> nextLinePrepend fm = [] \<Longrightarrow>
   strip (snd (formatComma C fm tok q)) @ strip (nextLinePrepend (fst (formatComma C fm tok q)))
     = strip q @ strip (value tok)"
  by (simp add: formatComma_def Let_def strip_addNewline)

lemma getSubstitution_no_dollar:
  "CHR ''$'' \<notin> set t \<Longrightarrow> getSubstitution m p f t = t"
proof (induction m p f t rule: getSubstitution.induct)
  case (1 matched preceding following)
  then show ?case by simp
next
  case (2 matched preceding following c)
  then show ?case by simp
next
  case (3 matched preceding following c d r)
  have c: "c \<noteq> CHR ''$''"
    using "3.prems" by auto
  have "CHR ''$'' \<notin> set (d # r)"
    using "3.prems" by simp
  then have "getSubstitution matched preceding following (d # r) = d # r"
    using c "3.IH"(5) by simp
  then show ?case
    using c by simp
qed

lemma strip_replaceNewlines:
  assumes "\<forall>c \<in> set t. is_space c"
  shows "strip (replaceNewlines t p v) = strip v"
proof -
  have "\<not> is_space (CHR ''$'')"
    by (simp add: is_space_def)
  then have "CHR ''$'' \<notin> set t"
    using assms by blast
  then have g: "\<And>m p f. getSubstitution m p f t = t"
    by (rule getSubstitution_no_dollar)
  have st: "strip t = []"
    using assms by (rule strip_spaces)
  show ?thesis
  proof (induction v arbitrary: p)
    case Nil
    then show ?case by simp
  next
    case (Cons c cs)
    show ?case
      by (cases "c = NL") (simp_all add: g st Cons.IH)
  qed
qed

lemma strip_formatLineComment:
  "\<forall>c \<in> set (indent (indentation fm)). is_space c \<Longrightarrow>
   strip (snd (formatLineComment fm tok q)) = strip q @ strip (lineCommentText (value tok))"
  by (simp add: formatLineComment_def Let_def strip_addNewline)

lemma strip_formatBlockComment:
  assumes "\<forall>c \<in> set (indent (indentation fm)). is_space c"
  shows "strip (formatBlockComment fm tok q) = strip q @ strip (value tok)"
proof -
  have "\<forall>c \<in> set (getIndent (indentation fm)). is_space c"
    using assms by (auto simp add: getIndent_def)
  then have "\<forall>c \<in> set (NL # getIndent (indentation fm)). is_space c"
    by simp
  then have "strip (indentComment fm (value tok)) = strip (value tok)"
    unfolding indentComment_def by (rule strip_replaceNewlines)
  then show ?thesis
    using assms by (simp add: formatBlockComment_def strip_addNewline)
qed

lemma strip_dispatch:
  assumes ws: "\<forall>c \<in> set (indent (indentation fm)). is_space c"
    and nc: "type (tokens ! index) \<noteq> LINE_COMMENT" "type (tokens ! index) \<noteq> BLOCK_COMMENT"
    and ph: "type (tokens ! index) = PLACEHOLDER \<longrightarrow>
        fst (paramsGet C (params fm) (tokens ! index)) = value (tokens ! index)"
    and np: "type (tokens ! index) \<noteq> WHITESPACE \<longrightarrow> nextLinePrepend fm = []"
  shows "strip (snd (dispatch C fm tokens index q)) @
         strip (nextLinePrepend (fst (dispatch C fm tokens index q)))
       = strip q @ strip (nextLinePrepend fm) @
         (if type (tokens ! index) = WHITESPACE then [] else strip (value (tokens ! index)))"
proof (cases "type (tokens ! index)")
  case WHITESPACE
  then show ?thesis by (simp add: dispatch_WHITESPACE)
next
  case LINE_COMMENT
  then show ?thesis using nc by simp
next
  case BLOCK_COMMENT
  then show ?thesis using nc by simp
next
  case RESERVED_TOPLEVEL
  then show ?thesis
    using ws np by (simp add: dispatch_RESERVED_TOPLEVEL case_prod_beta strip_formatToplevelReservedWord)
next
  case RESERVED_NEWLINE
  then show ?thesis
    using ws np by (simp add: dispatch_RESERVED_NEWLINE case_prod_beta strip_formatNewlineReservedWord)
next
  case RESERVED_NEWLINE_WITH_INDENT
  then show ?thesis
    using ws np
    by (simp add: dispatch_RESERVED_NEWLINE_WITH_INDENT case_prod_beta
        strip_formatNewlineReservedWordWithIndent)
next
  case RESERVED
  then show ?thesis
    using ws np
    by (simp add: dispatch_RESERVED case_prod_beta strip_checkMaxCharacter formatWithSpaces_def)
next
  case OPEN_PAREN
  then show ?thesis
    using ws np by (simp add: dispatch_OPEN_PAREN strip_formatOpeningParentheses)
next
  case CLOSE_PAREN
  then show ?thesis
    using ws np by (simp add: dispatch_CLOSE_PAREN strip_formatClosingParentheses)
next
  case PLACEHOLDER
  then show ?thesis
    using np ph by (simp add: dispatch_PLACEHOLDER strip_formatPlaceholder)
next
  case PUNCTUATION
  then have np': "nextLinePrepend fm = []"
    using np by simp
  show ?thesis
    using PUNCTUATION ws np' strip_formatComma [OF ws np', of C "tokens ! index" q]
    by (simp add: dispatch_plain case_prod_beta strip_checkMaxCharacter formatWithSpaces_def
        formatWithSpaceAfter_def formatWithoutSpaces_def)
next
  case OTHER
  then have np': "nextLinePrepend fm = []"
    using np by simp
  show ?thesis
    using OTHER ws np' strip_formatComma [OF ws np', of C "tokens ! index" q]
    by (simp add: dispatch_plain case_prod_beta strip_checkMaxCharacter formatWithSpaces_def
        formatWithSpaceAfter_def formatWithoutSpaces_def)
qed

lemma strip_step:
  assumes ws: "\<forall>c \<in> set (indent (indentation fm1)). is_space c"
    and nc: "type tok \<noteq> LINE_COMMENT" "type tok \<noteq> BLOCK_COMMENT"
    and lit: "type tok = PLACEHOLDER \<longrightarrow> (\<forall>p t. fst (paramsGet C p t) = value t)"
    and n: "n < length tokens1"
  shows "strip (snd (dispatch C (prependState fm1 tok) (tokens1[n := prependToken fm1 tok]) n q)) @
         strip (nextLinePrepend (fst (dispatch C (prependState fm1 tok)
                  (tokens1[n := prependToken fm1 tok]) n q)))
       = (strip q @ strip (nextLinePrepend fm1)) @
         (if type tok = WHITESPACE then [] else strip (value tok))"
proof -
  let ?toks = "tokens1[n := prependToken fm1 tok]"
  have nth: "?toks ! n = prependToken fm1 tok"
    using n by simp
  have a: "\<forall>c \<in> set (indent (indentation (prependState fm1 tok))). is_space c"
    using ws by simp
  have b: "type (?toks ! n) \<noteq> LINE_COMMENT" "type (?toks ! n) \<noteq> BLOCK_COMMENT"
    using nc nth by simp_all
  have c: "type (?toks ! n) \<noteq> WHITESPACE \<longrightarrow> nextLinePrepend (prependState fm1 tok) = []"
    using nc nth by (auto simp add: prependState_def takesPrepend_def)
  have d: "strip (nextLinePrepend (prependState fm1 tok)) @
        (if type tok = WHITESPACE then [] else strip (value (prependToken fm1 tok)))
      = strip (nextLinePrepend fm1) @ (if type tok = WHITESPACE then [] else strip (value tok))"
    using nc by (auto simp add: prependState_def prependToken_def takesPrepend_def)
  have ph: "type (?toks ! n) = PLACEHOLDER \<longrightarrow>
      fst (paramsGet C (params (prependState fm1 tok)) (?toks ! n)) = value (?toks ! n)"
    using lit nth by simp
  have e: "strip (snd (dispatch C (prependState fm1 tok) ?toks n q)) @
        strip (nextLinePrepend (fst (dispatch C (prependState fm1 tok) ?toks n q)))
      = strip q @ strip (nextLinePrepend (prependState fm1 tok)) @
        (if type tok = WHITESPACE then [] else strip (value (prependToken fm1 tok)))"
    using strip_dispatch [OF a b ph c, of q] by (simp add: nth)
  show ?thesis
    by (simp only: e d append_assoc)
qed

lemma nonWhitespace_snoc:
  "nonWhitespace (xs @ [t]) = nonWhitespace xs @ (if type t = WHITESPACE then [] else [t])"
  by (simp add: nonWhitespace_def)

lemma strip_fold_step:
  fixes fm :: "('ib, 'p) Formatter"
  assumes ws: "\<forall>c \<in> set (indent (indentation fm)). is_space c"
    and nc: "\<forall>t \<in> set tokens. type t \<noteq> LINE_COMMENT \<and> type t \<noteq> BLOCK_COMMENT"
    and lit: "\<forall>p t. fst (paramsGet C p t) = value t"
    and n: "n \<le> length tokens"
  shows "case fold (step C) [0..<n] (fm, tokens, []) of (fm1, tokens1, q) \<Rightarrow>
      indent (indentation fm1) = indent (indentation fm) \<and>
      strip q @ strip (nextLinePrepend fm1)
        = strip (nextLinePrepend fm) @ concat (map (\<lambda>t. strip (value t)) (nonWhitespace (take n tokens)))"
proof (rule fold_step_induct [where P = "\<lambda>n fm1 tokens1 q.
      indent (indentation fm1) = indent (indentation fm) \<and>
      strip q @ strip (nextLinePrepend fm1)
        = strip (nextLinePrepend fm) @ concat (map (\<lambda>t. strip (value t)) (nonWhitespace (take n tokens)))",
      OF _ _ n])
  show "indent (indentation fm) = indent (indentation fm) \<and>
      strip [] @ strip (nextLinePrepend fm)
        = strip (nextLinePrepend fm) @ concat (map (\<lambda>t. strip (value t)) (nonWhitespace (take 0 tokens)))"
    by (simp add: nonWhitespace_def)
next
  fix k and fm1 :: "('ib, 'p) Formatter" and tokens1 :: "token list" and q :: string
  assume k: "k < length tokens" and len: "length tokens1 = length tokens"
    and inv: "indent (indentation fm1) = indent (indentation fm) \<and>
      strip q @ strip (nextLinePrepend fm1)
        = strip (nextLinePrepend fm) @ concat (map (\<lambda>t. strip (value t)) (nonWhitespace (take k tokens)))"
  let ?tok = "tokens ! k"
  let ?d = "dispatch C (prependState fm1 ?tok) (tokens1[k := prependToken fm1 ?tok]) k q"
  have ws1: "\<forall>c \<in> set (indent (indentation fm1)). is_space c"
    using ws inv by simp
  have nck: "type ?tok \<noteq> LINE_COMMENT" "type ?tok \<noteq> BLOCK_COMMENT"
    using nc k by simp_all
  have k1: "k < length tokens1"
    using k len by simp
  have s: "strip (snd ?d) @ strip (nextLinePrepend (fst ?d))
      = (strip q @ strip (nextLinePrepend fm1)) @
        (if type ?tok = WHITESPACE then [] else strip (value ?tok))"
    using strip_step [OF ws1 nck _ k1] lit by blast
  have t: "take (Suc k) tokens = take k tokens @ [?tok]"
    using k by (simp add: take_Suc_conv_app_nth)
  show "indent (indentation (fst ?d)) = indent (indentation fm) \<and>
      strip (snd ?d) @ strip (nextLinePrepend (fst ?d))
        = strip (nextLinePrepend fm) @
          concat (map (\<lambda>t. strip (value t)) (nonWhitespace (take (Suc k) tokens)))"
    using inv by (simp only: s t nonWhitespace_snoc) simp
qed

text \<open>
  Without comments and with placeholders that resolve to their own text, the output holds
  the token values and nothing else, whitespace aside.
\<close>

lemma output_is_token_values:
  assumes "\<forall>c \<in> set (indent (indentation fm)). is_space c"
    and "\<forall>t \<in> set tokens. type t \<noteq> LINE_COMMENT \<and> type t \<noteq> BLOCK_COMMENT"
    and "\<forall>p t. fst (paramsGet C p t) = value t"
    and "nextLinePrepend fm = []"
    and "nextLinePrepend (fst (getFormattedQueryFromTokens C fm tokens)) = []"
  shows "strip (snd (snd (getFormattedQueryFromTokens C fm tokens)))
       = concat (map (\<lambda>t. strip (value t)) (nonWhitespace tokens))"
  using strip_fold_step [OF assms(1,2,3), of "length tokens"] assms(4,5)
  by (simp add: getFormattedQueryFromTokens_def case_prod_beta)

subsection \<open>Runs of whitespace collapsed\<close>

lemma collapseSpec_dropWhile:
  "collapseSpec True cs = collapseSpec False (dropWhile is_space cs)"
  by (induction cs) auto

lemma equalizeWhitespace_collapseSpec: "equalizeWhitespace v = collapseSpec False v"
proof (induction v rule: equalizeWhitespace.induct)
  case 1
  then show ?case by simp
next
  case (2 c cs)
  show ?case
  proof (cases "is_space c")
    case True
    then show ?thesis
      using 2 by (simp add: collapseSpec_dropWhile)
  next
    case False
    then show ?thesis
      using 2 by simp
  qed
qed

subsection \<open>Trailing whitespace and what stands before it\<close>

lemma trimEnd_spaces: "\<forall>c \<in> set r. is_space c \<Longrightarrow> trimEnd (s @ r) = trimEnd s"
  by (induction r rule: rev_induct) (simp_all flip: append_assoc)

lemma trimEnd_solid: "s \<noteq> [] \<Longrightarrow> \<not> is_space (last s) \<Longrightarrow> trimEnd s = s"
  by (cases s rule: rev_cases) (simp_all add: trimEnd_def)

lemma trimEnd_solid_append:
  assumes "a \<noteq> []" and "\<not> is_space (last a)"
  shows "trimEnd (a @ b) = a @ trimEnd b"
proof -
  obtain r where r: "b = trimEnd b @ r" "\<forall>c \<in> set r. is_space c"
    using trimEnd_decomp by blast
  have "trimEnd (a @ b) = trimEnd ((a @ trimEnd b) @ r)"
    using r(1) by (metis append_assoc)
  also have "\<dots> = trimEnd (a @ trimEnd b)"
    using r(2) by (rule trimEnd_spaces)
  also have "\<dots> = a @ trimEnd b"
  proof (cases "trimEnd b = []")
    case True
    then show ?thesis using assms by (simp add: trimEnd_solid)
  next
    case False
    then have "\<not> is_space (last (a @ trimEnd b))"
      using trimEnd_last [of b] by simp
    then show ?thesis
      using assms(1) by (intro trimEnd_solid) simp_all
  qed
  finally show ?thesis .
qed

lemma trimEnd_keeps: "\<exists>z. trimEnd (s @ y) = trimEnd s @ z"
proof (cases "trimEnd s = []")
  case True
  then show ?thesis by simp
next
  case False
  obtain r where r: "s = trimEnd s @ r"
    using trimEnd_decomp by blast
  have "trimEnd (s @ y) = trimEnd (trimEnd s @ (r @ y))"
    using r by (metis append_assoc)
  also have "\<dots> = trimEnd s @ trimEnd (r @ y)"
    using False trimEnd_last [of s] by (intro trimEnd_solid_append)
  finally show ?thesis by blast
qed

subsection \<open>Texts found in order, and the end of the buffer\<close>

lemma appearInOrder_keep:
  "appearInOrder vs (trimEnd s) \<Longrightarrow> appearInOrder vs (trimEnd (s @ y))"
  using trimEnd_keeps [of s y] by (auto simp add: appearInOrder_extend)

lemma appearInOrder_untrimmed: "appearInOrder vs (trimEnd s) \<Longrightarrow> appearInOrder vs s"
  using trimEnd_decomp [of s] by (metis appearInOrder_extend)

lemma appearInOrder_emit:
  assumes d: "appearInOrder d (trimEnd s)" and n: "appearInOrder n (trimEnd c)"
  shows "appearInOrder (d @ n) (trimEnd (s @ c))"
proof (cases "trimEnd c = []")
  case True
  obtain z where z: "trimEnd (s @ c) = trimEnd s @ z"
    using trimEnd_keeps by blast
  have "appearInOrder (d @ n) (trimEnd s @ [])"
    using d n True by (intro appearInOrder_append) simp_all
  then have "appearInOrder (d @ n) ((trimEnd s @ []) @ z)"
    by (rule appearInOrder_extend)
  then show ?thesis
    by (simp add: z)
next
  case False
  obtain r where r: "c = trimEnd c @ r" "\<forall>x \<in> set r. is_space x"
    using trimEnd_decomp by blast
  have "trimEnd (s @ c) = trimEnd ((s @ trimEnd c) @ r)"
    using r(1) by (metis append_assoc)
  also have "\<dots> = trimEnd (s @ trimEnd c)"
    using r(2) by (rule trimEnd_spaces)
  also have "\<dots> = s @ trimEnd c"
    using False trimEnd_last [of c] by (intro trimEnd_solid) simp_all
  finally have e: "trimEnd (s @ c) = s @ trimEnd c" .
  have "appearInOrder d s"
    using d by (rule appearInOrder_untrimmed)
  then show ?thesis
    unfolding e using n by (rule appearInOrder_append)
qed

lemma appearInOrder_addNewline:
  "appearInOrder vs (trimEnd s) \<Longrightarrow> appearInOrder vs (trimEnd (addNewline fm s))"
  unfolding addNewline_def using appearInOrder_keep [of vs "trimEnd s"] by simp

lemma appearInOrder_trimEnd_append:
  "appearInOrder d (trimEnd s) \<Longrightarrow> appearInOrder n (trimEnd c) \<Longrightarrow>
   appearInOrder (d @ n) (trimEnd (trimEnd s @ c))"
  using appearInOrder_emit [of d "trimEnd s" n c] by simp

lemma appearInOrder_emit_more:
  assumes "appearInOrder d (trimEnd s)" and "appearInOrder n (trimEnd c)"
  shows "appearInOrder (d @ n) (trimEnd (s @ c @ y))"
  using appearInOrder_keep [OF appearInOrder_emit [OF assms], of y] by simp

subsection \<open>The texts each rule adds to the buffer\<close>

lemmas order_rules = appearInOrder_addNewline appearInOrder_emit appearInOrder_emit_more
  appearInOrder_keep

lemma order_formatLineComment:
  assumes "appearInOrder d (trimEnd q)"
    and "appearInOrder n (trimEnd (lineCommentText (value tok)))"
  shows "appearInOrder (d @ n) (trimEnd (snd (formatLineComment fm tok q)))"
  using assms by (simp add: formatLineComment_def Let_def order_rules)

lemma order_formatBlockComment:
  assumes "appearInOrder d (trimEnd q)"
    and "appearInOrder n (trimEnd (indentComment fm (value tok)))"
  shows "appearInOrder (d @ n) (trimEnd (formatBlockComment fm tok q))"
  using assms by (simp add: formatBlockComment_def order_rules)

lemma order_formatToplevelReservedWord:
  assumes "appearInOrder d (trimEnd q)"
    and "appearInOrder n (trimEnd (equalizeWhitespace (value tok)))"
  shows "appearInOrder (d @ n) (trimEnd (snd (formatToplevelReservedWord fm tok q)))"
  using assms by (simp add: formatToplevelReservedWord_def Let_def order_rules)

lemma order_formatNewlineReservedWord:
  assumes "appearInOrder d (trimEnd q)"
    and "appearInOrder n (trimEnd (equalizeWhitespace (value tok)))"
  shows "appearInOrder (d @ n) (trimEnd (snd (formatNewlineReservedWord fm tok q)))"
  using assms by (simp add: formatNewlineReservedWord_def Let_def order_rules)

lemma order_formatNewlineReservedWordWithIndent:
  assumes "appearInOrder d (trimEnd q)"
    and "appearInOrder n (trimEnd (equalizeWhitespace (value tok)))"
  shows "appearInOrder (d @ n) (trimEnd (snd (formatNewlineReservedWordWithIndent fm tok q)))"
  using assms by (simp add: formatNewlineReservedWordWithIndent_def Let_def order_rules)

lemma order_checkMaxCharacter:
  assumes "appearInOrder d (trimEnd q)"
  shows "appearInOrder d (trimEnd (snd (checkMaxCharacter fm tokens index q)))"
  using assms by (simp add: checkMaxCharacter_def Let_def order_rules)

lemma order_formatWithSpaces:
  assumes "appearInOrder d (trimEnd q)" and "appearInOrder n (trimEnd (value tok))"
  shows "appearInOrder (d @ n) (trimEnd (formatWithSpaces tok q))"
  using assms by (simp add: formatWithSpaces_def order_rules)

lemma order_formatWithSpaceAfter:
  assumes "appearInOrder d (trimEnd q)" and "appearInOrder n (trimEnd (value tok))"
  shows "appearInOrder (d @ n) (trimEnd (formatWithSpaceAfter tok q))"
  using assms by (simp add: formatWithSpaceAfter_def order_rules)

lemma order_formatWithoutSpaces:
  assumes "appearInOrder d (trimEnd q)" and "appearInOrder n (trimEnd (value tok))"
  shows "appearInOrder (d @ n) (trimEnd (formatWithoutSpaces tok q))"
  using assms by (simp add: formatWithoutSpaces_def order_rules)

lemma order_formatOpeningParentheses:
  assumes "appearInOrder d (trimEnd q)" and "appearInOrder n (trimEnd (value (tokens ! index)))"
  shows "appearInOrder (d @ n) (trimEnd (snd (formatOpeningParentheses C fm tokens index q)))"
  using assms by (simp add: formatOpeningParentheses_def Let_def order_rules)

lemma order_formatClosingParentheses:
  assumes "appearInOrder d (trimEnd q)" and "appearInOrder n (trimEnd (value tok))"
  shows "appearInOrder (d @ n) (trimEnd (snd (formatClosingParentheses C fm tok q)))"
  using assms
  by (simp add: formatClosingParentheses_def Let_def order_formatWithSpaceAfter
      order_formatWithSpaces order_rules)

lemma order_formatPlaceholder:
  assumes "appearInOrder d (trimEnd q)"
    and "appearInOrder n (trimEnd (fst (paramsGet C (params fm) tok)))"
  shows "appearInOrder (d @ n) (trimEnd (snd (formatPlaceholder C fm tok q)))"
  using assms by (simp add: formatPlaceholder_def case_prod_beta order_rules)

lemma order_formatComma:
  assumes "appearInOrder d (trimEnd q)" and "appearInOrder n (trimEnd (value tok))"
  shows "(nextLinePrepend (fst (formatComma C fm tok q)) = nextLinePrepend fm \<and>
          appearInOrder (d @ n) (trimEnd (snd (formatComma C fm tok q)))) \<or>
         (nextLinePrepend (fst (formatComma C fm tok q)) = value tok \<and>
          appearInOrder d (trimEnd (snd (formatComma C fm tok q))))"
proof (cases "isActive C (inlineBlock fm) \<or> previousIsLIMIT (dropMaxCharacterIndent fm)")
  case True
  then show ?thesis
    using assms by (simp add: formatComma_def Let_def order_rules)
next
  case False
  then show ?thesis
    using assms(1) by (simp add: formatComma_def Let_def order_rules)
qed

subsection \<open>The texts of the comments\<close>

lemma trimEnd_lineCommentText: "trimEnd (lineCommentText v) = lineCommentText v"
  by (rule trimEnd_solid) (simp_all add: lineCommentText_def is_space_def)

lemma linesNL_not_Nil [simp]: "linesNL s \<noteq> []"
  by (induction s) (auto simp add: Let_def)

lemma hd_linesNL: "s \<noteq> [] \<Longrightarrow> hd (linesNL s) \<noteq> []"
  by (cases s) (auto simp add: Let_def)

lemma appearInOrder_hd_tl:
  assumes "vs \<noteq> []" and "appearInOrder (tl vs) r"
  shows "appearInOrder vs (hd vs @ r)"
proof -
  have "appearInOrder (hd vs # tl vs) (hd vs @ r)"
    using assms(2) by (simp add: findAfter_prefix)
  then show ?thesis
    using assms(1) by simp
qed

lemma getSubstitution_NL: "getSubstitution m p f (NL # r) = NL # getSubstitution m p f r"
  by (cases r) (simp_all add: NL_def)

lemma reindent_lines:
  "\<exists>r B. replaceNewlines (NL # ind) p (a @ b) = (hd (linesNL a) @ r) @ B \<and>
      appearInOrder (tl (linesNL a)) r \<and>
      (a = [] \<longrightarrow> r = []) \<and>
      (a \<noteq> [] \<longrightarrow> last a \<noteq> NL \<longrightarrow> last (hd (linesNL a) @ r) = last a)"
proof (induction a arbitrary: p)
  case Nil
  have "replaceNewlines (NL # ind) p ([] @ b) = (hd (linesNL []) @ []) @ replaceNewlines (NL # ind) p b"
    by simp
  then show ?case
    by (intro exI [of _ "[]"] exI [of _ "replaceNewlines (NL # ind) p b"]) simp
next
  case (Cons c cs)
  obtain r B where ih: "replaceNewlines (NL # ind) (p @ [c]) (cs @ b) = (hd (linesNL cs) @ r) @ B"
      "appearInOrder (tl (linesNL cs)) r" "cs = [] \<longrightarrow> r = []"
      "cs \<noteq> [] \<longrightarrow> last cs \<noteq> NL \<longrightarrow> last (hd (linesNL cs) @ r) = last cs"
    using Cons.IH [of "p @ [c]"] by blast
  have nonempty: "cs \<noteq> [] \<Longrightarrow> hd (linesNL cs) @ r \<noteq> []"
    by (simp add: hd_linesNL)
  show ?case
  proof (cases "c = NL")
    case True
    let ?S = "getSubstitution [NL] p (cs @ b) ind"
    let ?r = "?S @ hd (linesNL cs) @ r"
    have e: "replaceNewlines (NL # ind) p ((c # cs) @ b) = (hd (linesNL (c # cs)) @ ?r) @ B"
      using True ih(1) by (simp add: getSubstitution_NL Let_def)
    have "appearInOrder (linesNL cs) (hd (linesNL cs) @ r)"
      using ih(2) by (intro appearInOrder_hd_tl) simp_all
    then have "appearInOrder (linesNL cs) (?S @ hd (linesNL cs) @ r)"
      by (rule appearInOrder_suffix)
    then have a: "appearInOrder (tl (linesNL (c # cs))) ?r"
      using True by (simp add: Let_def)
    have l: "last (c # cs) \<noteq> NL \<longrightarrow> last (hd (linesNL (c # cs)) @ ?r) = last (c # cs)"
    proof
      assume n: "last (c # cs) \<noteq> NL"
      then have cs: "cs \<noteq> []"
        using True by auto
      then have "last (hd (linesNL cs) @ r) = last cs"
        using ih(4) n by simp
      then show "last (hd (linesNL (c # cs)) @ ?r) = last (c # cs)"
        using cs hd_linesNL [OF cs] by (simp add: Let_def)
    qed
    show ?thesis
      using e a l by blast
  next
    case False
    have e: "replaceNewlines (NL # ind) p ((c # cs) @ b) = (hd (linesNL (c # cs)) @ r) @ B"
      using False ih(1) by (simp add: Let_def)
    have a: "appearInOrder (tl (linesNL (c # cs))) r"
      using False ih(2) by (simp add: Let_def)
    have l: "last (c # cs) \<noteq> NL \<longrightarrow> last (hd (linesNL (c # cs)) @ r) = last (c # cs)"
    proof (cases "cs = []")
      case True
      then show ?thesis
        using False ih(3) by (simp add: Let_def)
    next
      case False
      then show ?thesis
        using \<open>c \<noteq> NL\<close> ih(4) hd_linesNL [OF False] by (simp add: Let_def)
    qed
    show ?thesis
      using e a l by blast
  qed
qed

lemma appearInOrder_Nil_text: "appearInOrder [[]] s"
  by (cases s) simp_all

lemma order_indentComment:
  "appearInOrder (linesNL (trimEnd v)) (trimEnd (indentComment fm v))"
proof (cases "trimEnd v = []")
  case True
  then have "linesNL (trimEnd v) = [[]]"
    by simp
  then show ?thesis
    by (simp only: appearInOrder_Nil_text)
next
  case False
  obtain w where w: "v = trimEnd v @ w"
    using trimEnd_decomp by blast
  let ?a = "trimEnd v"
  obtain r B where rb:
      "replaceNewlines (NL # getIndent (indentation fm)) [] (?a @ w) = (hd (linesNL ?a) @ r) @ B"
      "appearInOrder (tl (linesNL ?a)) r"
      "?a \<noteq> [] \<longrightarrow> last ?a \<noteq> NL \<longrightarrow> last (hd (linesNL ?a) @ r) = last ?a"
    using reindent_lines [of "getIndent (indentation fm)" "[]" ?a w] by blast
  have sp: "\<not> is_space (last ?a)"
    using False by (rule trimEnd_last)
  then have "last ?a \<noteq> NL"
    by auto
  then have l: "last (hd (linesNL ?a) @ r) = last ?a"
    using rb(3) False by simp
  have ne: "hd (linesNL ?a) @ r \<noteq> []"
    using hd_linesNL [OF False] by simp
  have "indentComment fm v = (hd (linesNL ?a) @ r) @ B"
    using rb(1) w by (simp add: indentComment_def)
  then have t: "trimEnd (indentComment fm v) = (hd (linesNL ?a) @ r) @ trimEnd B"
    using trimEnd_solid_append [OF ne, of B] sp l by simp
  have "appearInOrder (linesNL ?a) (hd (linesNL ?a) @ r)"
    using rb(2) by (intro appearInOrder_hd_tl) simp_all
  then show ?thesis
    unfolding t by (rule appearInOrder_extend)
qed

subsection \<open>A comma held back\<close>

lemma equalizeWhitespace_comma:
  "equalizeWhitespace ('','' @ v) = '','' @ equalizeWhitespace v"
  by (simp add: is_space_def)

lemma trimEnd_comma: "trimEnd ('','' @ w) = '','' @ trimEnd w"
  by (rule trimEnd_solid_append) (simp_all add: is_space_def)

lemma appearInOrder_held:
  assumes "appearInOrder h p" and "p = [] \<or> p = '',''"
  shows "appearInOrder (h @ [trimEnd w]) (trimEnd (p @ w))"
proof -
  have "trimEnd (p @ w) = p @ trimEnd w"
    using assms(2) trimEnd_comma by auto
  then show ?thesis
    using appearInOrder_snoc [OF assms(1), of "trimEnd w"] by simp
qed

lemma appearInOrder_resolved:
  assumes "appearInOrder h p" and "appearInOrder [p] t" and "p = '',''"
  shows "appearInOrder h (trimEnd t)"
proof -
  obtain r1 where "findAfter p t = Some r1"
    using assms(2) by (auto split: option.splits)
  then obtain a where a: "t = a @ p @ r1"
    using findAfter_Some by blast
  have "trimEnd ((a @ p) @ r1) = (a @ p) @ trimEnd r1"
    using assms(3) by (intro trimEnd_solid_append) (simp_all add: is_space_def)
  then have "trimEnd t = a @ p @ trimEnd r1"
    using a by simp
  moreover have "appearInOrder h (a @ p @ trimEnd r1)"
    using appearInOrder_suffix [OF appearInOrder_extend [OF assms(1), of "trimEnd r1"], of a] .
  ultimately show ?thesis by simp
qed

lemma appearInOrder_empty_held:
  assumes "appearInOrder d s" and "appearInOrder h []"
  shows "appearInOrder (d @ h) s"
  using appearInOrder_append [OF assms] by simp

subsection \<open>The texts in the buffer, in order\<close>

lemma significant_snoc:
  "significant (xs @ [t]) =
     significant xs @ (if type t \<noteq> WHITESPACE \<and> type t \<noteq> PLACEHOLDER then [t] else [])"
  by (simp add: significant_def)

lemma prepend_nothing:
  "nextLinePrepend fm = [] \<or> type tok = WHITESPACE \<or> type tok = LINE_COMMENT \<or>
     type tok = BLOCK_COMMENT \<Longrightarrow>
   prependToken fm tok = tok \<and> prependState fm tok = fm"
  by (auto simp add: prependToken_def prependState_def takesPrepend_def)

lemma order_dispatch:
  fixes fm :: "('ib, 'p) Formatter"
  assumes d: "appearInOrder d (trimEnd q)"
    and ws: "type (tokens ! index) = WHITESPACE \<Longrightarrow> n = []"
    and lc: "type (tokens ! index) = LINE_COMMENT \<Longrightarrow>
        appearInOrder n (trimEnd (lineCommentText (value (tokens ! index))))"
    and bc: "type (tokens ! index) = BLOCK_COMMENT \<Longrightarrow>
        appearInOrder n (trimEnd (indentComment fm (value (tokens ! index))))"
    and rw: "type (tokens ! index) \<in> {RESERVED_TOPLEVEL, RESERVED_NEWLINE, RESERVED_NEWLINE_WITH_INDENT} \<Longrightarrow>
        appearInOrder n (trimEnd (equalizeWhitespace (value (tokens ! index))))"
    and ph: "type (tokens ! index) = PLACEHOLDER \<Longrightarrow>
        appearInOrder n (trimEnd (fst (paramsGet C (params fm) (tokens ! index))))"
    and nv: "type (tokens ! index) \<in> {RESERVED, OPEN_PAREN, CLOSE_PAREN, PUNCTUATION, OTHER} \<Longrightarrow>
        appearInOrder n (trimEnd (value (tokens ! index)))"
  shows "(nextLinePrepend (fst (dispatch C fm tokens index q)) = nextLinePrepend fm \<and>
          appearInOrder (d @ n) (trimEnd (snd (dispatch C fm tokens index q)))) \<or>
         ((type (tokens ! index) = PUNCTUATION \<or> type (tokens ! index) = OTHER) \<and>
          value (tokens ! index) = '','' \<and>
          nextLinePrepend (fst (dispatch C fm tokens index q)) = '','' \<and>
          appearInOrder d (trimEnd (snd (dispatch C fm tokens index q))))"
proof -
  let ?tok = "tokens ! index"
  have plain: ?thesis if ty: "type ?tok = PUNCTUATION \<or> type ?tok = OTHER"
  proof -
    have v: "appearInOrder n (trimEnd (value ?tok))"
      using nv ty by auto
    consider (comma) "value ?tok = '',''"
      | (colon) "value ?tok \<noteq> '',''" "value ?tok = '':''"
      | (period) "value ?tok \<noteq> '',''" "value ?tok \<noteq> '':''" "value ?tok = ''.''"
      | (semicolon) "value ?tok \<noteq> '',''" "value ?tok \<noteq> '':''" "value ?tok \<noteq> ''.''"
          "value ?tok = '';''"
      | (default) "value ?tok \<noteq> '',''" "value ?tok \<noteq> '':''" "value ?tok \<noteq> ''.''"
          "value ?tok \<noteq> '';''"
      by blast
    then show ?thesis
    proof cases
      case comma
      have "dispatch C fm tokens index q = formatComma C fm ?tok q"
        using ty comma by (simp add: dispatch_plain)
      then show ?thesis
        using order_formatComma [OF d v, where C = C and fm = fm] ty comma by auto
    next
      case colon
      have "dispatch C fm tokens index q = (fm, formatWithSpaceAfter ?tok q)"
        using ty colon by (simp add: dispatch_plain)
      then show ?thesis
        using order_formatWithSpaceAfter [OF d v] by simp
    next
      case period
      have "dispatch C fm tokens index q = (fm, formatWithoutSpaces ?tok q)"
        using ty period by (simp add: dispatch_plain)
      then show ?thesis
        using order_formatWithoutSpaces [OF d v] by simp
    next
      case semicolon
      have "dispatch C fm tokens index q = (fm, formatWithoutSpaces ?tok q @ [NL, NL])"
        using ty semicolon by (simp add: dispatch_plain)
      then show ?thesis
        using appearInOrder_keep [OF order_formatWithoutSpaces [OF d v], of "[NL, NL]"] by simp
    next
      case default
      have "dispatch C fm tokens index q =
          (fst (checkMaxCharacter fm tokens index q),
           formatWithSpaces ?tok (snd (checkMaxCharacter fm tokens index q)))"
        using ty default by (simp add: dispatch_plain case_prod_beta)
      then show ?thesis
        using order_formatWithSpaces [OF order_checkMaxCharacter [OF d, where fm = fm and tokens = tokens and index = index] v] by simp
    qed
  qed
  show ?thesis
  proof (cases "type ?tok")
    case WHITESPACE
    then show ?thesis
      using d ws by (simp add: dispatch_WHITESPACE)
  next
    case LINE_COMMENT
    then show ?thesis
      using order_formatLineComment [OF d, where fm = fm and n = n and tok = "tokens ! index"] lc by (simp add: dispatch_LINE_COMMENT)
  next
    case BLOCK_COMMENT
    then show ?thesis
      using order_formatBlockComment [OF d, where fm = fm and n = n and tok = "tokens ! index"] bc by (simp add: dispatch_BLOCK_COMMENT)
  next
    case RESERVED_TOPLEVEL
    then show ?thesis
      using order_formatToplevelReservedWord [OF d, where fm = fm and n = n and tok = "tokens ! index"] rw
      by (simp add: dispatch_RESERVED_TOPLEVEL case_prod_beta)
  next
    case RESERVED_NEWLINE
    then show ?thesis
      using order_formatNewlineReservedWord [OF d, where fm = fm and n = n and tok = "tokens ! index"] rw
      by (simp add: dispatch_RESERVED_NEWLINE case_prod_beta)
  next
    case RESERVED_NEWLINE_WITH_INDENT
    then show ?thesis
      using order_formatNewlineReservedWordWithIndent [OF d, where fm = fm and n = n and tok = "tokens ! index"] rw
      by (simp add: dispatch_RESERVED_NEWLINE_WITH_INDENT case_prod_beta)
  next
    case RESERVED
    then show ?thesis
      using order_formatWithSpaces [OF order_checkMaxCharacter [OF d, where fm = fm and tokens = tokens and index = index], where n = n and tok = "tokens ! index"] nv
      by (simp add: dispatch_RESERVED case_prod_beta)
  next
    case OPEN_PAREN
    then show ?thesis
      using order_formatOpeningParentheses [OF d, where fm = fm and C = C and n = n and tokens = tokens and index = index] nv by (simp add: dispatch_OPEN_PAREN)
  next
    case CLOSE_PAREN
    then show ?thesis
      using order_formatClosingParentheses [OF d, where fm = fm and C = C and n = n and tok = "tokens ! index"] nv by (simp add: dispatch_CLOSE_PAREN)
  next
    case PLACEHOLDER
    then show ?thesis
      using order_formatPlaceholder [OF d, where fm = fm and C = C and n = n and tok = "tokens ! index"] ph by (simp add: dispatch_PLACEHOLDER)
  next
    case PUNCTUATION
    then show ?thesis using plain by simp
  next
    case OTHER
    then show ?thesis using plain by simp
  qed
qed

lemma appearInOrder_self: "appearInOrder [x] x"
  using findAfter_prefix [of x "[]"] by simp

lemma value_prependToken:
  "type tok \<noteq> WHITESPACE \<Longrightarrow> type tok \<noteq> LINE_COMMENT \<Longrightarrow> type tok \<noteq> BLOCK_COMMENT \<Longrightarrow>
   value (prependToken fm tok) = nextLinePrepend fm @ value tok \<and>
   nextLinePrepend (prependState fm tok) = []"
  by (simp add: prependToken_def prependState_def takesPrepend_def)

lemma order_step:
  fixes fm1 :: "('ib, 'p) Formatter"
  assumes k: "k < length tokens1"
    and p: "nextLinePrepend fm1 = [] \<or> nextLinePrepend fm1 = '',''"
    and tx: "texts = d @ h"
    and d: "appearInOrder d (trimEnd q)"
    and h: "appearInOrder h (nextLinePrepend fm1)"
    and cl: "nextLinePrepend fm1 = [] \<or>
        (type (tokens1 ! k) \<noteq> LINE_COMMENT \<and> type (tokens1 ! k) \<noteq> BLOCK_COMMENT \<and>
         (type (tokens1 ! k) \<noteq> PLACEHOLDER \<or>
          appearInOrder [nextLinePrepend fm1]
            (fst (paramsGet C (params fm1) (prependToken fm1 (tokens1 ! k))))))"
  shows "case step C k (fm1, tokens1, q) of (fm2, tokens2, q2) \<Rightarrow>
      (nextLinePrepend fm2 = [] \<or> nextLinePrepend fm2 = '','') \<and>
      (\<exists>d' h'. texts @ (if type (tokens1 ! k) \<noteq> WHITESPACE \<and> type (tokens1 ! k) \<noteq> PLACEHOLDER
                          then emittedTexts (tokens1 ! k) else []) = d' @ h' \<and>
         appearInOrder d' (trimEnd q2) \<and> appearInOrder h' (nextLinePrepend fm2))"
proof -
  let ?tok = "tokens1 ! k"
  let ?tok' = "prependToken fm1 ?tok"
  let ?fm = "prependState fm1 ?tok"
  let ?toks = "tokens1[k := ?tok']"
  let ?D = "dispatch C ?fm ?toks k q"
  let ?new = "if type ?tok \<noteq> WHITESPACE \<and> type ?tok \<noteq> PLACEHOLDER then emittedTexts ?tok else []"
  have nth: "?toks ! k = ?tok'"
    using k by simp
  have ty: "type (?toks ! k) = type ?tok"
    by (simp only: nth type_prependToken)
  have st: "step C k (fm1, tokens1, q) = (fst ?D, ?toks, snd ?D)"
    using k by (simp add: step_unfold case_prod_beta)
  have goal: ?thesis
    if "nextLinePrepend (fst ?D) = [] \<or> nextLinePrepend (fst ?D) = '',''"
      and "texts @ ?new = d' @ h'" and "appearInOrder d' (trimEnd (snd ?D))"
      and "appearInOrder h' (nextLinePrepend (fst ?D))" for d' h'
    using that by (simp only: st prod.case) blast
  consider (ws) "type ?tok = WHITESPACE"
    | (comment) "type ?tok = LINE_COMMENT \<or> type ?tok = BLOCK_COMMENT"
    | (ph) "type ?tok = PLACEHOLDER"
    | (other) "type ?tok \<noteq> WHITESPACE" "type ?tok \<noteq> LINE_COMMENT" "type ?tok \<noteq> BLOCK_COMMENT"
        "type ?tok \<noteq> PLACEHOLDER"
    by blast
  then show ?thesis
  proof cases
    case ws
    have same: "?tok' = ?tok" "?fm = fm1"
      using ws prepend_nothing [of fm1 ?tok] by simp_all
    have "?D = (fm1, q)"
      using ws by (simp only: same) (simp add: dispatch_WHITESPACE k)
    then show ?thesis
      using p tx d h ws by (intro goal [of d h]) simp_all
  next
    case comment
    have np: "nextLinePrepend fm1 = []"
      using cl comment by auto
    have same: "?tok' = ?tok" "?fm = fm1"
      using np prepend_nothing [of fm1 ?tok] by simp_all
    have d0: "appearInOrder (d @ h) (trimEnd q)"
      using d h np by (intro appearInOrder_empty_held) simp_all
    let ?n = "emittedTexts ?tok"
    have lc: "type (?toks ! k) = LINE_COMMENT \<Longrightarrow>
        appearInOrder ?n (trimEnd (lineCommentText (value (?toks ! k))))"
      by (simp only: nth same)
        (simp add: emittedTexts_def trimEnd_lineCommentText appearInOrder_self del: appearInOrder.simps)
    have bc: "type (?toks ! k) = BLOCK_COMMENT \<Longrightarrow>
        appearInOrder ?n (trimEnd (indentComment ?fm (value (?toks ! k))))"
      by (simp only: nth same) (simp add: emittedTexts_def order_indentComment del: appearInOrder.simps)
    have r: "(nextLinePrepend (fst ?D) = nextLinePrepend ?fm \<and>
          appearInOrder ((d @ h) @ ?n) (trimEnd (snd ?D))) \<or>
         ((type (?toks ! k) = PUNCTUATION \<or> type (?toks ! k) = OTHER) \<and>
          value (?toks ! k) = '','' \<and> nextLinePrepend (fst ?D) = '','' \<and>
          appearInOrder (d @ h) (trimEnd (snd ?D)))"
      using comment
      by (intro order_dispatch [OF d0 _ lc bc]) (auto simp only: ty)
    have nt: "\<not> (type (?toks ! k) = PUNCTUATION \<or> type (?toks ! k) = OTHER)"
      using comment unfolding ty by auto
    have "nextLinePrepend ?fm = []"
      using np by (simp only: same)
    then have "nextLinePrepend (fst ?D) = [] \<and> appearInOrder ((d @ h) @ ?n) (trimEnd (snd ?D))"
      using r nt by auto
    then show ?thesis
      using tx comment by (intro goal [of "(d @ h) @ ?n" "[]"]) auto
  next
    case ph
    let ?t = "fst (paramsGet C (params fm1) ?tok')"
    have found: "appearInOrder h (trimEnd ?t)"
    proof (cases "nextLinePrepend fm1 = []")
      case True
      then show ?thesis
        using h appearInOrder_extend [of h "[]" "trimEnd ?t"] by simp
    next
      case False
      then have "nextLinePrepend fm1 = '',''" "appearInOrder [nextLinePrepend fm1] ?t"
        using p cl ph by auto
      then show ?thesis
        using h by (intro appearInOrder_resolved [of h "nextLinePrepend fm1"]) simp_all
    qed
    have phd: "type (?toks ! k) = PLACEHOLDER \<Longrightarrow>
        appearInOrder h (trimEnd (fst (paramsGet C (params ?fm) (?toks ! k))))"
      using found by (simp only: nth prependState_fields)
    have np: "nextLinePrepend ?fm = []"
      using ph by (simp add: prependState_def takesPrepend_def)
    have r: "(nextLinePrepend (fst ?D) = nextLinePrepend ?fm \<and>
          appearInOrder (d @ h) (trimEnd (snd ?D))) \<or>
         ((type (?toks ! k) = PUNCTUATION \<or> type (?toks ! k) = OTHER) \<and>
          value (?toks ! k) = '','' \<and> nextLinePrepend (fst ?D) = '','' \<and>
          appearInOrder d (trimEnd (snd ?D)))"
      using ph
      by (intro order_dispatch [OF d _ _ _ _ phd]) (auto simp only: ty)
    have nt: "\<not> (type (?toks ! k) = PUNCTUATION \<or> type (?toks ! k) = OTHER)"
      using ph unfolding ty by auto
    have "nextLinePrepend (fst ?D) = [] \<and> appearInOrder (d @ h) (trimEnd (snd ?D))"
      using r nt np by auto
    then show ?thesis
      using tx ph by (intro goal [of "d @ h" "[]"]) auto
  next
    case other
    have v: "value ?tok' = nextLinePrepend fm1 @ value ?tok" and np: "nextLinePrepend ?fm = []"
      using value_prependToken [OF other(1,2,3), of fm1] by simp_all
    let ?w = "if type ?tok = RESERVED_TOPLEVEL \<or> type ?tok = RESERVED_NEWLINE \<or>
                 type ?tok = RESERVED_NEWLINE_WITH_INDENT
              then equalizeWhitespace (value ?tok) else value ?tok"
    let ?n = "h @ [trimEnd ?w]"
    have et: "emittedTexts ?tok = [trimEnd ?w]"
      using other by (simp add: emittedTexts_def equalizeWhitespace_collapseSpec)
    have n: "appearInOrder ?n (trimEnd (nextLinePrepend fm1 @ ?w))"
      using h p by (rule appearInOrder_held)
    have eq: "equalizeWhitespace (nextLinePrepend fm1 @ value ?tok) =
        nextLinePrepend fm1 @ equalizeWhitespace (value ?tok)"
      using p equalizeWhitespace_comma by auto
    have rw: "type (?toks ! k) \<in> {RESERVED_TOPLEVEL, RESERVED_NEWLINE, RESERVED_NEWLINE_WITH_INDENT} \<Longrightarrow>
        appearInOrder ?n (trimEnd (equalizeWhitespace (value (?toks ! k))))"
      using n by (auto simp only: nth ty v eq) auto
    have nv: "type (?toks ! k) \<in> {RESERVED, OPEN_PAREN, CLOSE_PAREN, PUNCTUATION, OTHER} \<Longrightarrow>
        appearInOrder ?n (trimEnd (value (?toks ! k)))"
      using n by (auto simp only: nth ty v) auto
    have r: "(nextLinePrepend (fst ?D) = nextLinePrepend ?fm \<and>
          appearInOrder (d @ ?n) (trimEnd (snd ?D))) \<or>
         ((type (?toks ! k) = PUNCTUATION \<or> type (?toks ! k) = OTHER) \<and>
          value (?toks ! k) = '','' \<and> nextLinePrepend (fst ?D) = '','' \<and>
          appearInOrder d (trimEnd (snd ?D)))"
      using other
      by (intro order_dispatch [OF d _ _ _ rw _ nv]) (auto simp only: ty)
    have r': "(nextLinePrepend (fst ?D) = nextLinePrepend ?fm \<and>
          appearInOrder (d @ ?n) (trimEnd (snd ?D))) \<or>
         ((type ?tok = PUNCTUATION \<or> type ?tok = OTHER) \<and>
          value ?tok' = '','' \<and> nextLinePrepend (fst ?D) = '','' \<and>
          appearInOrder d (trimEnd (snd ?D)))"
      using r by (simp only: nth type_prependToken)
    then consider (emitted) "nextLinePrepend (fst ?D) = []" "appearInOrder (d @ ?n) (trimEnd (snd ?D))"
      | (held) "type ?tok = PUNCTUATION \<or> type ?tok = OTHER" "value ?tok' = '',''"
          "nextLinePrepend (fst ?D) = '',''" "appearInOrder d (trimEnd (snd ?D))"
      using np by auto
    then show ?thesis
    proof cases
      case emitted
      then show ?thesis
        using tx other et by (intro goal [of "d @ ?n" "[]"]) auto
    next
      case held
      have "?w = value ?tok"
        using held(1) by auto
      then have "appearInOrder ?n (trimEnd (value ?tok'))"
        using n v by simp
      then have "appearInOrder ?n '',''"
        using held(2) trimEnd_comma [of "[]"] by simp
      then show ?thesis
        using tx other et held by (intro goal [of d ?n]) auto
    qed
  qed
qed

lemma order_fold_step:
  fixes fm :: "('ib, 'p) Formatter"
  assumes np: "nextLinePrepend fm = []"
    and cl: "commasLand C (fm, tokens, []) [0..<length tokens]"
    and n: "n \<le> length tokens"
  shows "case fold (step C) [0..<n] (fm, tokens, []) of (fm1, tokens1, q) \<Rightarrow>
      (nextLinePrepend fm1 = [] \<or> nextLinePrepend fm1 = '','') \<and>
      (\<exists>d h. concat (map emittedTexts (significant (take n tokens))) = d @ h \<and>
         appearInOrder d (trimEnd q) \<and> appearInOrder h (nextLinePrepend fm1)) \<and>
      commasLand C (fm1, tokens1, q) [n..<length tokens]"
proof (rule loop_induct [where P = "\<lambda>n s. case s of (fm1, tokens1, q) \<Rightarrow>
      (nextLinePrepend fm1 = [] \<or> nextLinePrepend fm1 = '','') \<and>
      (\<exists>d h. concat (map emittedTexts (significant (take n tokens))) = d @ h \<and>
         appearInOrder d (trimEnd q) \<and> appearInOrder h (nextLinePrepend fm1)) \<and>
      commasLand C (fm1, tokens1, q) [n..<length tokens]", OF _ _ n])
  have "concat (map emittedTexts (significant (take 0 tokens))) = [] @ [] \<and>
      appearInOrder [] (trimEnd []) \<and> appearInOrder [] (nextLinePrepend fm)"
    by (simp add: significant_def)
  then show "case (fm, tokens, []) of (fm1, tokens1, q) \<Rightarrow>
      (nextLinePrepend fm1 = [] \<or> nextLinePrepend fm1 = '','') \<and>
      (\<exists>d h. concat (map emittedTexts (significant (take 0 tokens))) = d @ h \<and>
         appearInOrder d (trimEnd q) \<and> appearInOrder h (nextLinePrepend fm1)) \<and>
      commasLand C (fm1, tokens1, q) [0..<length tokens]"
    using np cl by (simp only: prod.case) blast
next
  fix k and fm1 :: "('ib, 'p) Formatter" and tokens1 :: "token list" and q :: string
  assume k: "k < length tokens" and len: "length tokens1 = length tokens"
    and same: "tokens1 ! k = tokens ! k"
    and inv: "case (fm1, tokens1, q) of (fm1, tokens1, q) \<Rightarrow>
      (nextLinePrepend fm1 = [] \<or> nextLinePrepend fm1 = '','') \<and>
      (\<exists>d h. concat (map emittedTexts (significant (take k tokens))) = d @ h \<and>
         appearInOrder d (trimEnd q) \<and> appearInOrder h (nextLinePrepend fm1)) \<and>
      commasLand C (fm1, tokens1, q) [k..<length tokens]"
  have p: "nextLinePrepend fm1 = [] \<or> nextLinePrepend fm1 = '',''"
    using inv by simp
  obtain d h where dh: "concat (map emittedTexts (significant (take k tokens))) = d @ h"
      "appearInOrder d (trimEnd q)" "appearInOrder h (nextLinePrepend fm1)"
    using inv by auto
  have up: "[k..<length tokens] = k # [Suc k..<length tokens]"
    using k by (simp add: upt_conv_Cons)
  have c: "nextLinePrepend fm1 = [] \<or>
        (type (tokens1 ! k) \<noteq> LINE_COMMENT \<and> type (tokens1 ! k) \<noteq> BLOCK_COMMENT \<and>
         (type (tokens1 ! k) \<noteq> PLACEHOLDER \<or>
          appearInOrder [nextLinePrepend fm1]
            (fst (paramsGet C (params fm1) (prependToken fm1 (tokens1 ! k))))))"
      and rest: "commasLand C (step C k (fm1, tokens1, q)) [Suc k..<length tokens]"
    using inv by (simp_all add: up del: appearInOrder.simps)
  have k1: "k < length tokens1"
    using k len by simp
  have tk: "take (Suc k) tokens = take k tokens @ [tokens ! k]"
    using k by (simp add: take_Suc_conv_app_nth)
  have m: "concat (map emittedTexts (significant (take (Suc k) tokens))) =
      concat (map emittedTexts (significant (take k tokens))) @
        (if type (tokens1 ! k) \<noteq> WHITESPACE \<and> type (tokens1 ! k) \<noteq> PLACEHOLDER
         then emittedTexts (tokens1 ! k) else [])"
    by (simp add: tk significant_snoc same)
  obtain fm2 tokens2 q2 where st: "step C k (fm1, tokens1, q) = (fm2, tokens2, q2)"
    by (cases "step C k (fm1, tokens1, q)") auto
  show "case step C k (fm1, tokens1, q) of (fm1, tokens1, q) \<Rightarrow>
      (nextLinePrepend fm1 = [] \<or> nextLinePrepend fm1 = '','') \<and>
      (\<exists>d h. concat (map emittedTexts (significant (take (Suc k) tokens))) = d @ h \<and>
         appearInOrder d (trimEnd q) \<and> appearInOrder h (nextLinePrepend fm1)) \<and>
      commasLand C (fm1, tokens1, q) [Suc k..<length tokens]"
    using order_step [OF k1 p dh c] rest
    by (simp only: m st prod.case)
qed

subsection \<open>No blank before a line feed in the buffer\<close>

lemma NL_not_chars [simp]: "NL \<noteq> CHR '' ''" "NL \<noteq> CHR '';''" "NL \<noteq> CHR '',''"
  by (simp_all add: NL_def)

lemma clean_addNewline_text:
  assumes "\<not> blankBeforeNL q" and "NL \<notin> set (indent (indentation fm))" and "NL \<notin> set b"
  shows "\<not> blankBeforeNL (addNewline fm q @ b)"
proof -
  have "NL \<notin> set (getIndent (indentation fm) @ b)"
    using assms(2,3) by (simp add: getIndent_no_NL)
  then have "\<not> blankBeforeNL (trimEnd q @ NL # (getIndent (indentation fm) @ b))"
    using assms(1) by (rule blankBeforeNL_addNewline_text [rotated])
  then show ?thesis
    by (simp add: addNewline_def)
qed

lemma clean_addNewline:
  "\<not> blankBeforeNL q \<Longrightarrow> NL \<notin> set (indent (indentation fm)) \<Longrightarrow> \<not> blankBeforeNL (addNewline fm q)"
  using clean_addNewline_text [of q fm "[]"] by simp

lemma clean_formatToplevelReservedWord:
  assumes "\<not> blankBeforeNL q" and "NL \<notin> set (indent (indentation fm))"
  shows "\<not> blankBeforeNL (snd (formatToplevelReservedWord fm tok q))"
  using assms
  by (simp add: formatToplevelReservedWord_def Let_def clean_addNewline clean_addNewline_text
      equalizeWhitespace_no_NL)

lemma clean_formatNewlineReservedWord:
  assumes "\<not> blankBeforeNL q" and "NL \<notin> set (indent (indentation fm))"
  shows "\<not> blankBeforeNL (snd (formatNewlineReservedWord fm tok q))"
  using assms
  by (simp add: formatNewlineReservedWord_def Let_def clean_addNewline_text equalizeWhitespace_no_NL)

lemma clean_formatNewlineReservedWordWithIndent:
  assumes "\<not> blankBeforeNL q" and "NL \<notin> set (indent (indentation fm))"
  shows "\<not> blankBeforeNL (snd (formatNewlineReservedWordWithIndent fm tok q))"
  using assms
  by (simp add: formatNewlineReservedWordWithIndent_def Let_def clean_addNewline_text
      equalizeWhitespace_no_NL)

lemma clean_checkMaxCharacter:
  assumes "\<not> blankBeforeNL q" and "NL \<notin> set (indent (indentation fm))"
  shows "\<not> blankBeforeNL (snd (checkMaxCharacter fm tokens index q))"
  using assms by (simp add: checkMaxCharacter_def Let_def clean_addNewline)

lemma clean_semicolon:
  assumes "\<not> blankBeforeNL q"
  shows "\<not> blankBeforeNL ((trimEnd q @ '';'') @ [NL, NL])"
proof -
  have a: "\<not> blankBeforeNL (trimEnd q @ '';'')"
    using assms by (simp add: blankBeforeNL_append_text blankBeforeNL_trimEnd)
  have b: "\<not> blankBeforeNL ((trimEnd q @ '';'') @ [NL])"
    using a by (rule blankBeforeNL_snoc_NL) (simp add: is_space_def)
  have "\<not> blankBeforeNL (((trimEnd q @ '';'') @ [NL]) @ [NL])"
    using b by (rule blankBeforeNL_snoc_NL') (simp add: NL_def TAB_def SP_def)
  then show ?thesis by simp
qed

lemma blankBeforeNL_append:
  "blankBeforeNL (a @ b) \<longleftrightarrow>
     blankBeforeNL a \<or> blankBeforeNL b \<or>
     (a \<noteq> [] \<and> b \<noteq> [] \<and> (last a = SP \<or> last a = TAB) \<and> hd b = NL)"
proof (induction a rule: blankBeforeNL.induct)
  case 1
  then show ?case by simp
next
  case (2 c)
  then show ?case by (cases b) auto
next
  case (3 c d r)
  then show ?case by auto
qed

lemma cleanText_Nil [simp]: "cleanText []"
  by (simp add: cleanText_def)

lemma cleanText_no_NL: "NL \<notin> set x \<Longrightarrow> cleanText x"
  by (cases x) (auto simp add: cleanText_def blankBeforeNL_no_NL)

lemma cleanText_prepend:
  assumes "NL \<notin> set p" and "cleanText v"
  shows "cleanText (p @ v)"
proof -
  have a: "\<not> blankBeforeNL (p @ v)"
    using assms by (auto simp add: cleanText_def blankBeforeNL_append blankBeforeNL_no_NL)
  have b: "p @ v = [] \<or> hd (p @ v) \<noteq> NL"
    using assms by (cases p) (auto simp add: cleanText_def)
  show ?thesis
    using a b by (simp add: cleanText_def)
qed

lemma clean_append: "\<not> blankBeforeNL q \<Longrightarrow> cleanText c \<Longrightarrow> \<not> blankBeforeNL (q @ c)"
  by (auto simp add: cleanText_def blankBeforeNL_append)

lemma clean_append_space: "\<not> blankBeforeNL q \<Longrightarrow> \<not> blankBeforeNL (q @ '' '')"
  by (simp add: blankBeforeNL_append_text)

lemma clean_trimEnd_append:
  "\<not> blankBeforeNL q \<Longrightarrow> cleanText c \<Longrightarrow> \<not> blankBeforeNL (trimEnd q @ c)"
  by (simp add: clean_append blankBeforeNL_trimEnd)

lemma replaceNewlines_Nil_iff [simp]: "replaceNewlines (NL # ind) p v = [] \<longleftrightarrow> v = []"
  by (cases v) (auto simp add: getSubstitution_NL)

lemma hd_replaceNewlines: "hd (replaceNewlines (NL # ind) p v) = hd v"
  by (cases v) (auto simp add: getSubstitution_NL)

lemma blankBeforeNL_NL_Cons [simp]: "blankBeforeNL (NL # s) = blankBeforeNL s"
  by (cases s) (auto simp add: NL_def SP_def TAB_def)

lemma blankBeforeNL_Cons_iff:
  "blankBeforeNL (c # s) \<longleftrightarrow> blankBeforeNL s \<or> (s \<noteq> [] \<and> (c = SP \<or> c = TAB) \<and> hd s = NL)"
  by (cases s) auto

lemma emptyLine_Cons: "\<not> emptyLine (c # s) \<Longrightarrow> \<not> emptyLine s"
  by (cases s) auto

lemma clean_replaceNewlines:
  assumes ni: "NL \<notin> set ind" and nd: "CHR ''$'' \<notin> set ind"
  shows "\<not> blankBeforeNL v \<Longrightarrow> \<not> emptyLine v \<Longrightarrow> \<not> blankBeforeNL (replaceNewlines (NL # ind) p v)"
proof (induction v arbitrary: p)
  case Nil
  then show ?case by simp
next
  case (Cons c cs)
  have "CHR ''$'' \<notin> set (NL # ind)"
    using nd by (simp add: NL_def)
  then have g: "\<And>m p f. getSubstitution m p f (NL # ind) = NL # ind"
    by (rule getSubstitution_no_dollar)
  have b: "\<not> blankBeforeNL cs"
    using Cons.prems(1) blankBeforeNL_Cons by blast
  have e: "\<not> emptyLine cs"
    using Cons.prems(2) by (rule emptyLine_Cons)
  let ?r = "replaceNewlines (NL # ind) (p @ [c]) cs"
  have ih: "\<not> blankBeforeNL ?r"
    using Cons.IH [OF b e] .
  show ?case
  proof (cases "c = NL")
    case True
    have h: "cs \<noteq> [] \<Longrightarrow> hd cs \<noteq> NL"
      using Cons.prems(2) True by (cases cs) auto
    have "\<not> blankBeforeNL (ind @ ?r)"
      using ih ni h by (auto simp add: blankBeforeNL_append blankBeforeNL_no_NL hd_replaceNewlines)
    then show ?thesis
      using True by (simp add: g)
  next
    case False
    have h: "cs \<noteq> [] \<Longrightarrow> (c = SP \<or> c = TAB) \<Longrightarrow> hd cs \<noteq> NL"
      using Cons.prems(1) by (cases cs) auto
    have "\<not> blankBeforeNL (c # ?r)"
      using ih h by (auto simp add: blankBeforeNL_Cons_iff hd_replaceNewlines)
    then show ?thesis
      using False by simp
  qed
qed

lemma concat_replicate_no_dollar:
  "CHR ''$'' \<notin> set u \<Longrightarrow> CHR ''$'' \<notin> set (concat (replicate n u))"
  by (induction n) auto

lemma getIndent_no_dollar: "CHR ''$'' \<notin> set (indent i) \<Longrightarrow> CHR ''$'' \<notin> set (getIndent i)"
  by (simp add: getIndent_def concat_replicate_no_dollar)

lemma cleanText_indentComment:
  assumes "NL \<notin> set (indent (indentation fm))" and "CHR ''$'' \<notin> set (indent (indentation fm))"
    and "cleanText v" and "\<not> emptyLine v"
  shows "cleanText (indentComment fm v)"
proof -
  have "\<not> blankBeforeNL (indentComment fm v)"
    unfolding indentComment_def
    using assms by (intro clean_replaceNewlines getIndent_no_NL getIndent_no_dollar)
      (simp_all add: cleanText_def)
  moreover have "indentComment fm v = [] \<or> hd (indentComment fm v) \<noteq> NL"
    using assms(3) by (auto simp add: indentComment_def hd_replaceNewlines cleanText_def)
  ultimately show ?thesis
    by (simp add: cleanText_def)
qed

lemma clean_addNewline_append:
  "\<not> blankBeforeNL q \<Longrightarrow> NL \<notin> set (indent (indentation fm)) \<Longrightarrow> cleanText c \<Longrightarrow>
   \<not> blankBeforeNL (addNewline fm q @ c)"
  by (simp add: clean_addNewline clean_append)

lemma clean_formatLineComment:
  assumes "\<not> blankBeforeNL q" and "NL \<notin> set (indent (indentation fm))"
    and "cleanText (lineCommentText (value tok))"
  shows "\<not> blankBeforeNL (snd (formatLineComment fm tok q))"
  using assms by (simp add: formatLineComment_def Let_def clean_addNewline clean_append)

lemma clean_formatBlockComment:
  assumes "\<not> blankBeforeNL q" and "NL \<notin> set (indent (indentation fm))"
    and "CHR ''$'' \<notin> set (indent (indentation fm))"
    and "cleanText (value tok)" and "\<not> emptyLine (value tok)"
  shows "\<not> blankBeforeNL (formatBlockComment fm tok q)"
  using assms
  by (simp add: formatBlockComment_def clean_addNewline clean_addNewline_append cleanText_indentComment)

lemma clean_formatWithSpaces:
  "\<not> blankBeforeNL q \<Longrightarrow> cleanText (value tok) \<Longrightarrow> \<not> blankBeforeNL (formatWithSpaces tok q)"
  using clean_append_space [of "q @ value tok"] by (simp add: formatWithSpaces_def clean_append)

lemma clean_formatWithSpaceAfter:
  "\<not> blankBeforeNL q \<Longrightarrow> cleanText (value tok) \<Longrightarrow> \<not> blankBeforeNL (formatWithSpaceAfter tok q)"
  using clean_append_space [of "trimEnd q @ value tok"]
  by (simp add: formatWithSpaceAfter_def clean_trimEnd_append)

lemma clean_formatWithoutSpaces:
  "\<not> blankBeforeNL q \<Longrightarrow> cleanText (value tok) \<Longrightarrow> \<not> blankBeforeNL (formatWithoutSpaces tok q)"
  by (simp add: formatWithoutSpaces_def clean_trimEnd_append)

lemma clean_formatOpeningParentheses:
  assumes "\<not> blankBeforeNL q" and "NL \<notin> set (indent (indentation fm))"
    and "cleanText (value (tokens ! index))"
  shows "\<not> blankBeforeNL (snd (formatOpeningParentheses C fm tokens index q))"
  using assms
  by (simp add: formatOpeningParentheses_def Let_def clean_addNewline clean_addNewline_append
      clean_append clean_trimEnd_append blankBeforeNL_trimEnd)

lemma clean_formatClosingParentheses:
  assumes "\<not> blankBeforeNL q" and "NL \<notin> set (indent (indentation fm))" and "cleanText (value tok)"
  shows "\<not> blankBeforeNL (snd (formatClosingParentheses C fm tok q))"
  using assms
  by (simp add: formatClosingParentheses_def Let_def clean_formatWithSpaceAfter clean_formatWithSpaces
      clean_addNewline)

lemma clean_formatPlaceholder:
  assumes "\<not> blankBeforeNL q" and "cleanText (fst (paramsGet C (params fm) tok))"
  shows "\<not> blankBeforeNL (snd (formatPlaceholder C fm tok q))"
  using assms clean_append_space [of "q @ fst (paramsGet C (params fm) tok)"]
  by (simp add: formatPlaceholder_def case_prod_beta clean_append)

lemma clean_formatComma:
  assumes "\<not> blankBeforeNL q" and "NL \<notin> set (indent (indentation fm))" and "cleanText (value tok)"
  shows "\<not> blankBeforeNL (snd (formatComma C fm tok q))"
  using assms clean_append_space [of "trimEnd q @ value tok"] clean_append_space [of "trimEnd q"]
  by (simp add: formatComma_def Let_def clean_addNewline clean_trimEnd_append blankBeforeNL_trimEnd)

lemma clean_dispatch_plain:
  assumes ty: "type (tokens ! index) = PUNCTUATION \<or> type (tokens ! index) = OTHER"
    and cl: "\<not> blankBeforeNL q"
    and ni: "NL \<notin> set (indent (indentation fm))"
    and nv: "cleanText (value (tokens ! index))"
  shows "\<not> blankBeforeNL (snd (dispatch C fm tokens index q))"
proof -
  let ?v = "value (tokens ! index)"
  consider (comma) "?v = '',''"
    | (colon) "?v \<noteq> '',''" "?v = '':''"
    | (period) "?v \<noteq> '',''" "?v \<noteq> '':''" "?v = ''.''"
    | (semicolon) "?v \<noteq> '',''" "?v \<noteq> '':''" "?v \<noteq> ''.''" "?v = '';''"
    | (default) "?v \<noteq> '',''" "?v \<noteq> '':''" "?v \<noteq> ''.''" "?v \<noteq> '';''"
    by blast
  then show ?thesis
  proof cases
    case comma
    have "dispatch C fm tokens index q = formatComma C fm (tokens ! index) q"
      using ty comma by (simp add: dispatch_plain)
    then show ?thesis
      using clean_formatComma [OF cl ni nv] by simp
  next
    case colon
    have "dispatch C fm tokens index q = (fm, formatWithSpaceAfter (tokens ! index) q)"
      using ty colon by (simp add: dispatch_plain)
    then show ?thesis
      using clean_formatWithSpaceAfter [OF cl nv] by simp
  next
    case period
    have "dispatch C fm tokens index q = (fm, formatWithoutSpaces (tokens ! index) q)"
      using ty period by (simp add: dispatch_plain)
    then show ?thesis
      using clean_formatWithoutSpaces [OF cl nv] by simp
  next
    case semicolon
    have "dispatch C fm tokens index q = (fm, (trimEnd q @ '';'') @ [NL, NL])"
      using ty semicolon by (simp add: dispatch_plain formatWithoutSpaces_def)
    then show ?thesis
      using clean_semicolon [OF cl] by simp
  next
    case default
    have "dispatch C fm tokens index q =
        (fst (checkMaxCharacter fm tokens index q),
         formatWithSpaces (tokens ! index) (snd (checkMaxCharacter fm tokens index q)))"
      using ty default by (simp add: dispatch_plain case_prod_beta)
    then show ?thesis
      using clean_formatWithSpaces [OF clean_checkMaxCharacter [OF cl ni] nv] by simp
  qed
qed

lemma clean_dispatch:
  assumes cl: "\<not> blankBeforeNL q"
    and ni: "NL \<notin> set (indent (indentation fm))"
    and nd: "CHR ''$'' \<notin> set (indent (indentation fm))"
    and lc: "type (tokens ! index) = LINE_COMMENT \<Longrightarrow>
        cleanText (lineCommentText (value (tokens ! index)))"
    and bc: "type (tokens ! index) = BLOCK_COMMENT \<Longrightarrow>
        cleanText (value (tokens ! index)) \<and> \<not> emptyLine (value (tokens ! index))"
    and ph: "type (tokens ! index) = PLACEHOLDER \<Longrightarrow>
        cleanText (fst (paramsGet C (params fm) (tokens ! index)))"
    and nv: "type (tokens ! index) \<in> {RESERVED, OPEN_PAREN, CLOSE_PAREN, PUNCTUATION, OTHER} \<Longrightarrow>
        cleanText (value (tokens ! index))"
  shows "\<not> blankBeforeNL (snd (dispatch C fm tokens index q))"
proof (cases "type (tokens ! index)")
  case WHITESPACE
  then show ?thesis using cl by (simp add: dispatch_WHITESPACE)
next
  case LINE_COMMENT
  then show ?thesis
    using clean_formatLineComment [OF cl ni] lc by (simp add: dispatch_LINE_COMMENT)
next
  case BLOCK_COMMENT
  then show ?thesis
    using clean_formatBlockComment [OF cl ni nd] bc by (simp add: dispatch_BLOCK_COMMENT)
next
  case RESERVED_TOPLEVEL
  then show ?thesis
    using clean_formatToplevelReservedWord [OF cl ni]
    by (simp add: dispatch_RESERVED_TOPLEVEL case_prod_beta)
next
  case RESERVED_NEWLINE
  then show ?thesis
    using clean_formatNewlineReservedWord [OF cl ni]
    by (simp add: dispatch_RESERVED_NEWLINE case_prod_beta)
next
  case RESERVED_NEWLINE_WITH_INDENT
  then show ?thesis
    using clean_formatNewlineReservedWordWithIndent [OF cl ni]
    by (simp add: dispatch_RESERVED_NEWLINE_WITH_INDENT case_prod_beta)
next
  case RESERVED
  then show ?thesis
    using clean_formatWithSpaces [OF clean_checkMaxCharacter [OF cl ni]] nv
    by (simp add: dispatch_RESERVED case_prod_beta)
next
  case OPEN_PAREN
  then show ?thesis
    using clean_formatOpeningParentheses [OF cl ni] nv by (simp add: dispatch_OPEN_PAREN)
next
  case CLOSE_PAREN
  then show ?thesis
    using clean_formatClosingParentheses [OF cl ni] nv by (simp add: dispatch_CLOSE_PAREN)
next
  case PLACEHOLDER
  then show ?thesis
    using clean_formatPlaceholder [OF cl] ph by (simp add: dispatch_PLACEHOLDER)
next
  case PUNCTUATION
  then show ?thesis
    using clean_dispatch_plain [OF _ cl ni] nv by simp
next
  case OTHER
  then show ?thesis
    using clean_dispatch_plain [OF _ cl ni] nv by simp
qed

lemma clean_step:
  fixes fm1 :: "('ib, 'p) Formatter"
  assumes k: "k < length tokens1"
    and cl: "\<not> blankBeforeNL q"
    and ni: "NL \<notin> set (indent (indentation fm1))"
    and nd: "CHR ''$'' \<notin> set (indent (indentation fm1))"
    and np: "NL \<notin> set (nextLinePrepend fm1)"
    and ct: "cleanToken (tokens1 ! k)"
    and rc: "type (tokens1 ! k) \<noteq> PLACEHOLDER \<or>
        cleanText (fst (paramsGet C (params fm1) (prependToken fm1 (tokens1 ! k))))"
  shows "case step C k (fm1, tokens1, q) of (fm2, tokens2, q2) \<Rightarrow>
      indent (indentation fm2) = indent (indentation fm1) \<and>
      NL \<notin> set (nextLinePrepend fm2) \<and> \<not> blankBeforeNL q2"
proof -
  let ?tok = "tokens1 ! k"
  let ?tok' = "prependToken fm1 ?tok"
  let ?fm = "prependState fm1 ?tok"
  let ?toks = "tokens1[k := ?tok']"
  let ?d = "dispatch C ?fm ?toks k q"
  have nth: "?toks ! k = ?tok'"
    using k by simp
  have i: "NL \<notin> set (indent (indentation ?fm))" "CHR ''$'' \<notin> set (indent (indentation ?fm))"
    using ni nd by simp_all
  have v: "cleanText (value ?tok) \<Longrightarrow> cleanText (value ?tok')"
    using np by (simp add: prependToken_def cleanText_prepend)
  have ty: "type (?toks ! k) = type ?tok"
    by (simp only: nth type_prependToken)
  have cm: "type ?tok = LINE_COMMENT \<or> type ?tok = BLOCK_COMMENT \<Longrightarrow> ?toks ! k = ?tok"
    using prepend_nothing [of fm1 ?tok] by (simp only: nth) blast
  have lc: "type (?toks ! k) = LINE_COMMENT \<Longrightarrow> cleanText (lineCommentText (value (?toks ! k)))"
  proof -
    assume "type (?toks ! k) = LINE_COMMENT"
    then have a: "type ?tok = LINE_COMMENT"
      by (simp only: ty)
    then have "cleanText (lineCommentText (value ?tok))"
      using ct by (simp add: cleanToken_def)
    then show ?thesis
      using cm a by simp
  qed
  have bc: "type (?toks ! k) = BLOCK_COMMENT \<Longrightarrow>
      cleanText (value (?toks ! k)) \<and> \<not> emptyLine (value (?toks ! k))"
  proof -
    assume "type (?toks ! k) = BLOCK_COMMENT"
    then have a: "type ?tok = BLOCK_COMMENT"
      by (simp only: ty)
    then have "cleanText (value ?tok) \<and> \<not> emptyLine (value ?tok)"
      using ct by (simp add: cleanToken_def)
    then show ?thesis
      using cm a by simp
  qed
  have ph: "type (?toks ! k) = PLACEHOLDER \<Longrightarrow>
      cleanText (fst (paramsGet C (params ?fm) (?toks ! k)))"
  proof -
    assume "type (?toks ! k) = PLACEHOLDER"
    then have a: "type ?tok = PLACEHOLDER"
      by (simp only: ty)
    then have "cleanText (fst (paramsGet C (params fm1) ?tok'))"
      using rc by simp
    then show ?thesis
      by (simp only: nth prependState_fields)
  qed
  have nv: "type (?toks ! k) \<in> {RESERVED, OPEN_PAREN, CLOSE_PAREN, PUNCTUATION, OTHER} \<Longrightarrow>
      cleanText (value (?toks ! k))"
  proof -
    assume "type (?toks ! k) \<in> {RESERVED, OPEN_PAREN, CLOSE_PAREN, PUNCTUATION, OTHER}"
    then have a: "type ?tok \<in> {RESERVED, OPEN_PAREN, CLOSE_PAREN, PUNCTUATION, OTHER}"
      by (simp only: ty)
    then have "cleanText (value ?tok)"
      using ct by (auto simp add: cleanToken_def)
    then have "cleanText (value ?tok')"
      by (rule v)
    then show ?thesis
      by (simp only: nth)
  qed
  have c: "\<not> blankBeforeNL (snd ?d)"
    using clean_dispatch [OF cl i lc bc ph nv] by blast
  have "NL \<notin> set (nextLinePrepend ?fm)"
    using np by (simp add: prependState_def)
  then have p: "NL \<notin> set (nextLinePrepend (fst ?d))"
    using nextLinePrepend_dispatch [of C ?fm ?toks k q] by auto
  show ?thesis
    using c p k by (simp add: step_unfold case_prod_beta)
qed

lemma clean_fold_step:
  fixes fm :: "('ib, 'p) Formatter"
  assumes ni: "NL \<notin> set (indent (indentation fm))"
    and nd: "CHR ''$'' \<notin> set (indent (indentation fm))"
    and nl: "NL \<notin> set (nextLinePrepend fm)"
    and ct: "list_all cleanToken tokens"
    and rc: "resolvedClean C (fm, tokens, []) [0..<length tokens]"
    and n: "n \<le> length tokens"
  shows "case fold (step C) [0..<n] (fm, tokens, []) of (fm1, tokens1, q) \<Rightarrow>
      indent (indentation fm1) = indent (indentation fm) \<and>
      NL \<notin> set (nextLinePrepend fm1) \<and> \<not> blankBeforeNL q \<and>
      resolvedClean C (fm1, tokens1, q) [n..<length tokens]"
proof (rule loop_induct [where P = "\<lambda>n s. case s of (fm1, tokens1, q) \<Rightarrow>
      indent (indentation fm1) = indent (indentation fm) \<and>
      NL \<notin> set (nextLinePrepend fm1) \<and> \<not> blankBeforeNL q \<and>
      resolvedClean C (fm1, tokens1, q) [n..<length tokens]", OF _ _ n])
  show "case (fm, tokens, []) of (fm1, tokens1, q) \<Rightarrow>
      indent (indentation fm1) = indent (indentation fm) \<and>
      NL \<notin> set (nextLinePrepend fm1) \<and> \<not> blankBeforeNL q \<and>
      resolvedClean C (fm1, tokens1, q) [0..<length tokens]"
    using nl rc by simp
next
  fix k and fm1 :: "('ib, 'p) Formatter" and tokens1 :: "token list" and q :: string
  assume k: "k < length tokens" and len: "length tokens1 = length tokens"
    and same: "tokens1 ! k = tokens ! k"
    and inv: "case (fm1, tokens1, q) of (fm1, tokens1, q) \<Rightarrow>
      indent (indentation fm1) = indent (indentation fm) \<and>
      NL \<notin> set (nextLinePrepend fm1) \<and> \<not> blankBeforeNL q \<and>
      resolvedClean C (fm1, tokens1, q) [k..<length tokens]"
  have up: "[k..<length tokens] = k # [Suc k..<length tokens]"
    using k by (simp add: upt_conv_Cons)
  have r: "type (tokens1 ! k) \<noteq> PLACEHOLDER \<or>
        cleanText (fst (paramsGet C (params fm1) (prependToken fm1 (tokens1 ! k))))"
      "resolvedClean C (step C k (fm1, tokens1, q)) [Suc k..<length tokens]"
    using inv by (simp_all add: up)
  have k1: "k < length tokens1"
    using k len by simp
  have c: "cleanToken (tokens1 ! k)"
    using ct k same by (simp add: list_all_length)
  have i: "NL \<notin> set (indent (indentation fm1))" "CHR ''$'' \<notin> set (indent (indentation fm1))"
      "NL \<notin> set (nextLinePrepend fm1)" "\<not> blankBeforeNL q"
    using inv ni nd by simp_all
  show "case step C k (fm1, tokens1, q) of (fm1, tokens1, q) \<Rightarrow>
      indent (indentation fm1) = indent (indentation fm) \<and>
      NL \<notin> set (nextLinePrepend fm1) \<and> \<not> blankBeforeNL q \<and>
      resolvedClean C (fm1, tokens1, q) [Suc k..<length tokens]"
    using clean_step [OF k1 i(4) i(1) i(2) i(3) c r(1)] r(2) inv
    by (auto simp add: case_prod_beta)
qed

subsection \<open>The previous reserved word is read by the comma rule only\<close>

lemma sameStart_update:
  fixes fm fm1 :: "('ib, 'p) Formatter"
  assumes "sameStart fm fm1"
  shows "fm1 = fm\<lparr>previousReservedWord := previousReservedWord fm1\<rparr>"
  using assms by (cases fm, cases fm1) (simp add: sameStart_def)

lemma addNewline_previous [simp]:
  "addNewline (fm\<lparr>previousReservedWord := w\<rparr>) q = addNewline fm q"
  by (simp add: addNewline_def)

lemma prepend_previous [simp]:
  "prependToken (fm\<lparr>previousReservedWord := w\<rparr>) tok = prependToken fm tok"
  "prependState (fm\<lparr>previousReservedWord := w\<rparr>) tok = (prependState fm tok)\<lparr>previousReservedWord := w\<rparr>"
  by (simp_all add: prependToken_def prependState_def takesPrepend_def)

lemma previous_formatLineComment:
  "formatLineComment (fm\<lparr>previousReservedWord := w\<rparr>) tok q =
     ((fst (formatLineComment fm tok q))\<lparr>previousReservedWord := w\<rparr>, snd (formatLineComment fm tok q))"
  "previousReservedWord (fst (formatLineComment fm tok q)) = previousReservedWord fm"
  by (simp_all add: formatLineComment_def Let_def dropMaxCharacterIndent_def addNewline_def)

lemma previous_formatBlockComment:
  "formatBlockComment (fm\<lparr>previousReservedWord := w\<rparr>) tok q = formatBlockComment fm tok q"
  by (simp add: formatBlockComment_def indentComment_def)

lemma previous_formatToplevelReservedWord:
  "formatToplevelReservedWord (fm\<lparr>previousReservedWord := w\<rparr>) tok q =
     ((fst (formatToplevelReservedWord fm tok q))\<lparr>previousReservedWord := w\<rparr>,
      snd (formatToplevelReservedWord fm tok q))"
  by (simp add: formatToplevelReservedWord_def Let_def dropMaxCharacterIndent_def addNewline_def)

lemma previous_formatNewlineReservedWord:
  "formatNewlineReservedWord (fm\<lparr>previousReservedWord := w\<rparr>) tok q =
     ((fst (formatNewlineReservedWord fm tok q))\<lparr>previousReservedWord := w\<rparr>,
      snd (formatNewlineReservedWord fm tok q))"
  by (simp add: formatNewlineReservedWord_def Let_def dropMaxCharacterIndent_def addNewline_def)

lemma previous_formatNewlineReservedWordWithIndent:
  "formatNewlineReservedWordWithIndent (fm\<lparr>previousReservedWord := w\<rparr>) tok q =
     ((fst (formatNewlineReservedWordWithIndent fm tok q))\<lparr>previousReservedWord := w\<rparr>,
      snd (formatNewlineReservedWordWithIndent fm tok q))"
  by (simp add: formatNewlineReservedWordWithIndent_def Let_def dropMaxCharacterIndent_def
      addNewline_def)

lemma previous_checkMaxCharacter:
  "checkMaxCharacter (fm\<lparr>previousReservedWord := w\<rparr>) tokens index q =
     ((fst (checkMaxCharacter fm tokens index q))\<lparr>previousReservedWord := w\<rparr>,
      snd (checkMaxCharacter fm tokens index q))"
  "previousReservedWord (fst (checkMaxCharacter fm tokens index q)) = previousReservedWord fm"
  by (simp_all add: checkMaxCharacter_def Let_def addNewline_def)

lemma previous_formatOpeningParentheses:
  "formatOpeningParentheses C (fm\<lparr>previousReservedWord := w\<rparr>) tokens index q =
     ((fst (formatOpeningParentheses C fm tokens index q))\<lparr>previousReservedWord := w\<rparr>,
      snd (formatOpeningParentheses C fm tokens index q))"
  "previousReservedWord (fst (formatOpeningParentheses C fm tokens index q)) = previousReservedWord fm"
  by (simp_all add: formatOpeningParentheses_def Let_def dropMaxCharacterIndent_def addNewline_def)

lemma previous_formatClosingParentheses:
  "formatClosingParentheses C (fm\<lparr>previousReservedWord := w\<rparr>) tok q =
     ((fst (formatClosingParentheses C fm tok q))\<lparr>previousReservedWord := w\<rparr>,
      snd (formatClosingParentheses C fm tok q))"
  "previousReservedWord (fst (formatClosingParentheses C fm tok q)) = previousReservedWord fm"
  by (simp_all add: formatClosingParentheses_def Let_def addNewline_def)

lemma previous_formatPlaceholder:
  "formatPlaceholder C (fm\<lparr>previousReservedWord := w\<rparr>) tok q =
     ((fst (formatPlaceholder C fm tok q))\<lparr>previousReservedWord := w\<rparr>,
      snd (formatPlaceholder C fm tok q))"
  "previousReservedWord (fst (formatPlaceholder C fm tok q)) = previousReservedWord fm"
  by (simp_all add: formatPlaceholder_def case_prod_beta)

lemma previous_formatComma:
  "previousIsLIMIT (fm\<lparr>previousReservedWord := w\<rparr>) = previousIsLIMIT fm \<Longrightarrow>
   formatComma C (fm\<lparr>previousReservedWord := w\<rparr>) tok q =
     ((fst (formatComma C fm tok q))\<lparr>previousReservedWord := w\<rparr>, snd (formatComma C fm tok q))"
  "previousReservedWord (fst (formatComma C fm tok q)) = previousReservedWord fm"
  by (simp_all add: formatComma_def Let_def dropMaxCharacterIndent_def addNewline_def
      previousIsLIMIT_def)

lemma previous_dispatch:
  assumes "previousIsLIMIT (fm\<lparr>previousReservedWord := w\<rparr>) = previousIsLIMIT fm"
  shows "dispatch C (fm\<lparr>previousReservedWord := w\<rparr>) tokens index q =
     (if reservedType (type (tokens ! index)) then dispatch C fm tokens index q
      else ((fst (dispatch C fm tokens index q))\<lparr>previousReservedWord := w\<rparr>,
            snd (dispatch C fm tokens index q)))"
proof (cases "type (tokens ! index)")
  case PUNCTUATION
  then show ?thesis
    using previous_formatComma(1) [OF assms]
    by (simp add: reservedType_def dispatch_plain case_prod_beta previous_checkMaxCharacter)
next
  case OTHER
  then show ?thesis
    using previous_formatComma(1) [OF assms]
    by (simp add: reservedType_def dispatch_plain case_prod_beta previous_checkMaxCharacter)
qed (simp_all add: reservedType_def dispatch_branches case_prod_beta previous_formatLineComment
    previous_formatBlockComment previous_formatToplevelReservedWord
    previous_formatNewlineReservedWord previous_formatNewlineReservedWordWithIndent
    previous_checkMaxCharacter previous_formatOpeningParentheses
    previous_formatClosingParentheses previous_formatPlaceholder)

lemma previousReservedWord_dispatch:
  "previousReservedWord (fst (dispatch C fm tokens index q)) =
     (if reservedType (type (tokens ! index)) then Some (tokens ! index)
      else previousReservedWord fm)"
proof (cases "type (tokens ! index)")
  case PUNCTUATION
  then show ?thesis
    by (simp add: reservedType_def dispatch_plain case_prod_beta previous_checkMaxCharacter
        previous_formatComma)
next
  case OTHER
  then show ?thesis
    by (simp add: reservedType_def dispatch_plain case_prod_beta previous_checkMaxCharacter
        previous_formatComma)
qed (simp_all add: reservedType_def dispatch_branches case_prod_beta previous_formatLineComment
    previous_checkMaxCharacter previous_formatOpeningParentheses
    previous_formatClosingParentheses previous_formatPlaceholder)

lemma previousReservedWord_step:
  assumes "index < length tokens"
  shows "previousReservedWord (fst (step C index (fm, tokens, q))) =
     (if reservedType (type (tokens ! index)) then Some (prependToken fm (tokens ! index))
      else previousReservedWord fm)"
  using assms by (simp add: step_unfold case_prod_beta previousReservedWord_dispatch)

lemma previousIsLIMIT_update:
  "previousIsLIMIT (fm\<lparr>previousReservedWord := w\<rparr>) =
     (case w of None \<Rightarrow> False | Some t \<Rightarrow> testLIMIT (value t))"
  by (simp add: previousIsLIMIT_def)

lemma sameStart_refl [simp]: "sameStart fm fm"
  by (simp add: sameStart_def)

lemma sameStart_step:
  fixes fm fm1 :: "('ib, 'p) Formatter"
  assumes n: "n < length tokens" and ss: "sameStart fm fm1"
  shows "fst (snd (step C n (fm1, tokens, q))) = fst (snd (step C n (fm, tokens, q))) \<and>
         snd (snd (step C n (fm1, tokens, q))) = snd (snd (step C n (fm, tokens, q))) \<and>
         sameStart (fst (step C n (fm, tokens, q))) (fst (step C n (fm1, tokens, q)))"
proof -
  let ?w = "previousReservedWord fm1"
  let ?tok = "prependToken fm (tokens ! n)"
  let ?toks = "tokens[n := ?tok]"
  let ?fm = "prependState fm (tokens ! n)"
  let ?d = "dispatch C ?fm ?toks n q"
  have fm1: "fm1 = fm\<lparr>previousReservedWord := ?w\<rparr>"
    using ss by (rule sameStart_update)
  have lim: "previousIsLIMIT (?fm\<lparr>previousReservedWord := ?w\<rparr>) = previousIsLIMIT ?fm"
    using ss by (simp add: sameStart_def previousIsLIMIT_def)
  have a: "step C n (fm, tokens, q) = (fst ?d, ?toks, snd ?d)"
    using n by (simp add: step_unfold case_prod_beta)
  have "step C n (fm\<lparr>previousReservedWord := ?w\<rparr>, tokens, q) =
      (fst (dispatch C (?fm\<lparr>previousReservedWord := ?w\<rparr>) ?toks n q), ?toks,
       snd (dispatch C (?fm\<lparr>previousReservedWord := ?w\<rparr>) ?toks n q))"
    using n by (simp add: step_unfold case_prod_beta)
  then have b: "step C n (fm1, tokens, q) =
      (if reservedType (type (?toks ! n)) then (fst ?d, ?toks, snd ?d)
       else ((fst ?d)\<lparr>previousReservedWord := ?w\<rparr>, ?toks, snd ?d))"
    using fm1 by (simp add: previous_dispatch [OF lim])
  have c: "\<not> reservedType (type (?toks ! n)) \<Longrightarrow>
      sameStart (fst ?d) ((fst ?d)\<lparr>previousReservedWord := ?w\<rparr>)"
  proof -
    assume nr: "\<not> reservedType (type (?toks ! n))"
    have "previousReservedWord (fst ?d) = previousReservedWord fm"
      using nr by (simp add: previousReservedWord_dispatch)
    then have "previousIsLIMIT (fst ?d) = previousIsLIMIT fm"
      by (simp add: previousIsLIMIT_def)
    moreover have "previousIsLIMIT ((fst ?d)\<lparr>previousReservedWord := ?w\<rparr>) = previousIsLIMIT fm1"
      by (simp add: previousIsLIMIT_def)
    ultimately show ?thesis
      using ss by (simp add: sameStart_def)
  qed
  show ?thesis
    using c by (simp only: a b) (simp split: if_splits)
qed

lemma sameStart_fold:
  fixes fm fm1 :: "('ib, 'p) Formatter"
  assumes ss: "sameStart fm fm1" and n: "n \<le> length tokens"
  shows "fst (snd (fold (step C) [0..<n] (fm1, tokens, []))) =
           fst (snd (fold (step C) [0..<n] (fm, tokens, []))) \<and>
         snd (snd (fold (step C) [0..<n] (fm1, tokens, []))) =
           snd (snd (fold (step C) [0..<n] (fm, tokens, []))) \<and>
         sameStart (fst (fold (step C) [0..<n] (fm, tokens, [])))
           (fst (fold (step C) [0..<n] (fm1, tokens, [])))"
  using n
proof (induction n)
  case 0
  then show ?case using ss by simp
next
  case (Suc n)
  obtain fmA tA qA where runA: "fold (step C) [0..<n] (fm, tokens, []) = (fmA, tA, qA)"
    by (cases "fold (step C) [0..<n] (fm, tokens, [])") auto
  obtain fmB tB qB where runB: "fold (step C) [0..<n] (fm1, tokens, []) = (fmB, tB, qB)"
    by (cases "fold (step C) [0..<n] (fm1, tokens, [])") auto
  have ih: "tB = tA" "qB = qA" "sameStart fmA fmB"
    using Suc runA runB by auto
  have "length tA = length tokens"
    using fold_step_later [of n tokens C fm] Suc.prems runA by auto
  then have k: "n < length tA"
    using Suc.prems by simp
  show ?case
    using sameStart_step [OF k ih(3), of C qA] ih(1,2)
    by (simp only: fold_step_Suc runA runB)
qed

lemma format_sameStart:
  fixes fm fm1 :: "('ib, 'p) Formatter"
  assumes "sameStart fm fm1"
  shows "snd (format C fm1 query) = snd (format C fm query)"
  using sameStart_fold [OF assms, of "length (tokenize C query)" "tokenize C query" C]
  by (simp add: format_def getFormattedQueryFromTokens_def case_prod_beta)

lemmas rule_defs = formatLineComment_def formatBlockComment_def indentComment_def
  formatToplevelReservedWord_def formatNewlineReservedWord_def
  formatNewlineReservedWordWithIndent_def checkMaxCharacter_def formatOpeningParentheses_def
  formatClosingParentheses_def formatPlaceholder_def formatComma_def Let_def
  dropMaxCharacterIndent_def addNewline_def previousIsLIMIT_def

subsection \<open>What the loop leaves as the constructor set it\<close>

lemma topLevel_dispatch:
  "topLevel (indentation fm) \<le> 1 \<Longrightarrow> topLevel (indentation (fst (dispatch C fm tokens index q))) \<le> 1"
  by (cases "type (tokens ! index)")
     (simp_all add: dispatch_branches case_prod_beta rule_defs
        increaseToplevel_def decreaseTopLevel_def increaseBlockLevel_def
        decreaseBlockLevel_def increaseNewLineWithIndentLevel_def decreaseNewLineWithIndentLevel_def
        increaseMaxCharacterLevel_def decreaseAllMaxCharacterLevel_def)

lemma maxCharacterPerLine_dispatch:
  "maxCharacterPerLine (fst (dispatch C fm tokens index q)) = maxCharacterPerLine fm"
  by (cases "type (tokens ! index)") (simp_all add: dispatch_branches case_prod_beta rule_defs)

lemma constants_fold_step:
  fixes fm :: "('ib, 'p) Formatter"
  assumes "topLevel (indentation fm) \<le> 1" and "n \<le> length tokens"
  shows "case fold (step C) [0..<n] (fm, tokens, []) of (fm1, tokens1, q) \<Rightarrow>
      topLevel (indentation fm1) \<le> 1 \<and> indent (indentation fm1) = indent (indentation fm) \<and>
      maxCharacterPerLine fm1 = maxCharacterPerLine fm"
proof (rule loop_induct [where P = "\<lambda>n s. case s of (fm1, tokens1, q) \<Rightarrow>
      topLevel (indentation fm1) \<le> 1 \<and> indent (indentation fm1) = indent (indentation fm) \<and>
      maxCharacterPerLine fm1 = maxCharacterPerLine fm", OF _ _ assms(2)])
  show "case (fm, tokens, []) of (fm1, tokens1, q) \<Rightarrow>
      topLevel (indentation fm1) \<le> 1 \<and> indent (indentation fm1) = indent (indentation fm) \<and>
      maxCharacterPerLine fm1 = maxCharacterPerLine fm"
    using assms(1) by simp
next
  fix k and fm1 :: "('ib, 'p) Formatter" and tokens1 :: "token list" and q :: string
  assume k: "k < length tokens" and len: "length tokens1 = length tokens"
    and inv: "case (fm1, tokens1, q) of (fm1, tokens1, q) \<Rightarrow>
      topLevel (indentation fm1) \<le> 1 \<and> indent (indentation fm1) = indent (indentation fm) \<and>
      maxCharacterPerLine fm1 = maxCharacterPerLine fm"
  have k1: "k < length tokens1"
    using k len by simp
  have "topLevel (indentation (prependState fm1 (tokens1 ! k))) \<le> 1"
    using inv by simp
  then have "topLevel (indentation (fst (dispatch C (prependState fm1 (tokens1 ! k))
      (tokens1[k := prependToken fm1 (tokens1 ! k)]) k q))) \<le> 1"
    by (rule topLevel_dispatch)
  then show "case step C k (fm1, tokens1, q) of (fm1, tokens1, q) \<Rightarrow>
      topLevel (indentation fm1) \<le> 1 \<and> indent (indentation fm1) = indent (indentation fm) \<and>
      maxCharacterPerLine fm1 = maxCharacterPerLine fm"
    using inv k1 by (simp add: step_unfold case_prod_beta maxCharacterPerLine_dispatch)
qed

subsection \<open>The placeholder lookup is read by the placeholder rule only\<close>

lemma params_prepend [simp]:
  "prependToken (fm\<lparr>params := x\<rparr>) tok = prependToken fm tok"
  "prependState (fm\<lparr>params := x\<rparr>) tok = (prependState fm tok)\<lparr>params := x\<rparr>"
  by (simp_all add: prependToken_def prependState_def takesPrepend_def)

lemma params_dispatch:
  assumes "type (tokens ! index) \<noteq> PLACEHOLDER"
  shows "dispatch C (fm\<lparr>params := x\<rparr>) tokens index q =
     ((fst (dispatch C fm tokens index q))\<lparr>params := x\<rparr>, snd (dispatch C fm tokens index q))"
proof (cases "type (tokens ! index)")
  case PLACEHOLDER
  then show ?thesis using assms by simp
next
  case PUNCTUATION
  then show ?thesis
    by (simp add: dispatch_plain case_prod_beta rule_defs)
next
  case OTHER
  then show ?thesis
    by (simp add: dispatch_plain case_prod_beta rule_defs)
qed (simp_all add: dispatch_branches case_prod_beta rule_defs)

lemma params_step:
  assumes "n < length tokens" and "type (tokens ! n) \<noteq> PLACEHOLDER"
  shows "step C n (fm\<lparr>params := x\<rparr>, tokens, q) =
     (case step C n (fm, tokens, q) of (fm1, tokens1, q1) \<Rightarrow> (fm1\<lparr>params := x\<rparr>, tokens1, q1))"
  using assms by (simp add: step_unfold case_prod_beta params_dispatch)

lemma params_fold_step:
  fixes fm :: "('ib, 'p) Formatter"
  assumes "list_all (\<lambda>t. type t \<noteq> PLACEHOLDER) tokens" and "n \<le> length tokens"
  shows "fold (step C) [0..<n] (fm\<lparr>params := x\<rparr>, tokens, []) =
     (case fold (step C) [0..<n] (fm, tokens, []) of (fm1, tokens1, q) \<Rightarrow>
        (fm1\<lparr>params := x\<rparr>, tokens1, q))"
proof (rule loop_induct [where P = "\<lambda>n s. fold (step C) [0..<n] (fm\<lparr>params := x\<rparr>, tokens, []) =
     (case s of (fm1, tokens1, q) \<Rightarrow> (fm1\<lparr>params := x\<rparr>, tokens1, q))", OF _ _ assms(2)])
  show "fold (step C) [0..<0] (fm\<lparr>params := x\<rparr>, tokens, []) =
     (case (fm, tokens, []) of (fm1, tokens1, q) \<Rightarrow> (fm1\<lparr>params := x\<rparr>, tokens1, q))"
    by simp
next
  fix k and fm1 :: "('ib, 'p) Formatter" and tokens1 :: "token list" and q :: string
  assume k: "k < length tokens" and len: "length tokens1 = length tokens"
    and same: "tokens1 ! k = tokens ! k"
    and inv: "fold (step C) [0..<k] (fm\<lparr>params := x\<rparr>, tokens, []) =
     (case (fm1, tokens1, q) of (fm1, tokens1, q) \<Rightarrow> (fm1\<lparr>params := x\<rparr>, tokens1, q))"
  have k1: "k < length tokens1"
    using k len by simp
  have ty: "type (tokens1 ! k) \<noteq> PLACEHOLDER"
    using assms(1) k same by (simp add: list_all_length)
  show "fold (step C) [0..<Suc k] (fm\<lparr>params := x\<rparr>, tokens, []) =
     (case step C k (fm1, tokens1, q) of (fm1, tokens1, q) \<Rightarrow> (fm1\<lparr>params := x\<rparr>, tokens1, q))"
    using params_step [OF k1 ty] inv by (simp only: fold_step_Suc prod.case)
qed

lemma format_params:
  fixes fm :: "('ib, 'p) Formatter"
  assumes "list_all (\<lambda>t. type t \<noteq> PLACEHOLDER) (tokenize C query)"
  shows "snd (format C (fm\<lparr>params := x\<rparr>) query) = snd (format C fm query)"
  using params_fold_step [OF assms, where n = "length (tokenize C query)" and C = C and fm = fm and x = x]
  by (simp add: format_def getFormattedQueryFromTokens_def case_prod_beta)

subsection \<open>What a top-level reserved word at the start closes\<close>

lemma step_WHITESPACE:
  assumes "n < length tokens" and "type (tokens ! n) = WHITESPACE"
  shows "step C n (fm, tokens, q) = (fm, tokens, q)"
proof -
  have same: "prependToken fm (tokens ! n) = tokens ! n" "prependState fm (tokens ! n) = fm"
    using assms(2) prepend_nothing [of fm "tokens ! n"] by simp_all
  show ?thesis
    using assms by (simp add: step_unfold same dispatch_WHITESPACE)
qed

lemma fold_step_WHITESPACE:
  assumes "n \<le> length tokens" and "\<forall>i < n. type (tokens ! i) = WHITESPACE"
  shows "fold (step C) [0..<n] (fm, tokens, q) = (fm, tokens, q)"
  using assms
proof (induction n)
  case 0
  then show ?case by simp
next
  case (Suc n)
  then show ?case
    by (simp add: step_WHITESPACE)
qed

lemma indentation_prepend [simp]:
  "prependToken (fm\<lparr>indentation := i\<rparr>) tok = prependToken fm tok"
  "prependState (fm\<lparr>indentation := i\<rparr>) tok = (prependState fm tok)\<lparr>indentation := i\<rparr>"
  by (simp_all add: prependToken_def prependState_def takesPrepend_def)

lemma step_RESERVED_TOPLEVEL_closes:
  fixes fm :: "('ib, 'p) Formatter"
  assumes n: "n < length tokens" and ty: "type (tokens ! n) = RESERVED_TOPLEVEL"
    and t: "topLevel i \<le> 1" "topLevel (indentation fm) \<le> 1"
    and l: "newLineWithIndentLevel i \<le> 1" "newLineWithIndentLevel (indentation fm) \<le> 1"
    and b: "blockLevel i = blockLevel (indentation fm)"
    and u: "indent i = indent (indentation fm)"
  shows "step C n (fm\<lparr>indentation := i, previousReservedWord := w\<rparr>, tokens, q) =
         step C n (fm, tokens, q)"
proof -
  have z: "topLevel i - 1 = 0" "topLevel (indentation fm) - 1 = 0"
      "newLineWithIndentLevel i - 1 = 0" "newLineWithIndentLevel (indentation fm) - 1 = 0"
    using t l by simp_all
  have e: "i\<lparr>maxCharacterLevel := 0, newLineWithIndentLevel := 0, topLevel := Suc 0\<rparr> =
      (indentation fm)\<lparr>maxCharacterLevel := 0, newLineWithIndentLevel := 0, topLevel := Suc 0\<rparr>"
    using b u by (intro Indentation.equality) simp_all
  show ?thesis
    using n ty z b u e
    by (simp add: step_unfold dispatch_RESERVED_TOPLEVEL formatToplevelReservedWord_def Let_def
        dropMaxCharacterIndent_def addNewline_def getIndent_def decreaseAllMaxCharacterLevel_def
        decreaseNewLineWithIndentLevel_def decreaseTopLevel_def increaseToplevel_def)
qed

lemma firstIsToplevel_index:
  "firstIsToplevel tokens \<Longrightarrow>
   \<exists>k < length tokens. type (tokens ! k) = RESERVED_TOPLEVEL \<and>
      (\<forall>i < k. type (tokens ! i) = WHITESPACE)"
proof (induction tokens)
  case Nil
  then show ?case by (simp add: firstIsToplevel_def)
next
  case (Cons t ts)
  show ?case
  proof (cases "type t = WHITESPACE")
    case True
    then have "firstIsToplevel ts"
      using Cons.prems by (simp add: firstIsToplevel_def)
    then obtain k where k: "k < length ts" "type (ts ! k) = RESERVED_TOPLEVEL"
        "\<forall>i < k. type (ts ! i) = WHITESPACE"
      using Cons.IH by blast
    have "\<forall>i < Suc k. type ((t # ts) ! i) = WHITESPACE"
      using True k(3) by (auto simp add: nth_Cons split: nat.splits)
    then show ?thesis
      using k(1,2) by (intro exI [of _ "Suc k"]) simp
  next
    case False
    then have "type t = RESERVED_TOPLEVEL"
      using Cons.prems by (simp add: firstIsToplevel_def)
    then show ?thesis
      by (intro exI [of _ 0]) simp
  qed
qed

lemma fold_step_split:
  assumes "k < n"
  shows "fold (step C) [0..<n] s = fold (step C) [Suc k..<n] (step C k (fold (step C) [0..<k] s))"
proof -
  have "[0..<k + (n - k)] = [0..<k] @ [k..<k + (n - k)]"
    by (rule upt_add_eq_append) simp
  then have "[0..<n] = [0..<k] @ [k..<n]"
    using assms by simp
  then have "[0..<n] = [0..<k] @ k # [Suc k..<n]"
    using assms by (simp add: upt_conv_Cons)
  then show ?thesis
    by simp
qed

lemma format_toplevel_closes:
  fixes fm :: "('ib, 'p) Formatter"
  assumes f: "firstIsToplevel (tokenize C query)"
    and t: "topLevel i \<le> 1" "topLevel (indentation fm) \<le> 1"
    and l: "newLineWithIndentLevel i \<le> 1" "newLineWithIndentLevel (indentation fm) \<le> 1"
    and b: "blockLevel i = blockLevel (indentation fm)"
    and u: "indent i = indent (indentation fm)"
  shows "snd (format C (fm\<lparr>indentation := i, previousReservedWord := w\<rparr>) query) =
         snd (format C fm query)"
proof -
  let ?tokens = "tokenize C query"
  let ?fm = "fm\<lparr>indentation := i, previousReservedWord := w\<rparr>"
  obtain k where k: "k < length ?tokens" "type (?tokens ! k) = RESERVED_TOPLEVEL"
      "\<forall>i < k. type (?tokens ! i) = WHITESPACE"
    using firstIsToplevel_index [OF f] by blast
  have a: "fold (step C) [0..<k] (?fm, ?tokens, []) = (?fm, ?tokens, [])"
      "fold (step C) [0..<k] (fm, ?tokens, []) = (fm, ?tokens, [])"
    using k(1,3) by (simp_all add: fold_step_WHITESPACE)
  have "step C k (?fm, ?tokens, []) = step C k (fm, ?tokens, [])"
    using k(1,2) t l b u by (rule step_RESERVED_TOPLEVEL_closes)
  then have "fold (step C) [0..<length ?tokens] (?fm, ?tokens, []) =
      fold (step C) [0..<length ?tokens] (fm, ?tokens, [])"
    using a by (simp only: fold_step_split [OF k(1)])
  then show ?thesis
    by (simp add: format_def getFormattedQueryFromTokens_def)
qed

subsection \<open>One turn of the loop on a top-level reserved word\<close>

lemma toplevel_keyword_step:
  assumes "index < length tokens" and "type (tokens ! index) = RESERVED_TOPLEVEL"
  shows "case step C index (fm, tokens, query) of (fm1, tokens1, query1) \<Rightarrow>
    (let tok = prependToken fm (tokens ! index);
         i = indentation fm;
         level = (topLevel i - 1) + blockLevel i + (newLineWithIndentLevel i - 1)
     in maxCharacterLevel (indentation fm1) = 0 \<and>
        newLineWithIndentLevel (indentation fm1) = newLineWithIndentLevel i - 1 \<and>
        topLevel (indentation fm1) = (topLevel i - 1) + 1 \<and>
        blockLevel (indentation fm1) = blockLevel i \<and>
        indent (indentation fm1) = indent i \<and>
        query1 = trimEnd (trimEnd query @ [NL] @ concat (replicate level (indent i))
                            @ equalizeWhitespace (value tok))
                   @ [NL] @ concat (replicate (level + 1) (indent i)))"
  using assms
  by (simp add: step_unfold dispatch_RESERVED_TOPLEVEL Let_def formatToplevelReservedWord_def
      dropMaxCharacterIndent_def decreaseAllMaxCharacterLevel_def decreaseNewLineWithIndentLevel_def
      decreaseTopLevel_def increaseToplevel_def addNewline_def getIndent_def)

subsection \<open>Unfolding the model on a concrete input\<close>

lemmas eval_defs = getFormattedQueryFromTokens_def step_def dispatch_def Let_def
  prependToken_def prependState_def takesPrepend_def tk_def
  exampleFormatter_def newFormatter_def newIndentation_def exampleCollaborators_def
  formatLineComment_def lineCommentText_def formatBlockComment_def indentComment_def
  formatToplevelReservedWord_def formatNewlineReservedWord_def formatNewlineReservedWordWithIndent_def
  formatWithSpaceAfter_def formatWithoutSpaces_def formatWithSpaces_def formatOpeningParentheses_def
  formatClosingParentheses_def formatPlaceholder_def formatComma_def checkMaxCharacter_def
  previousIsLIMIT_def addNewline_def dropMaxCharacterIndent_def getIndent_def
  increaseToplevel_def decreaseTopLevel_def increaseBlockLevel_def decreaseBlockLevel_def
  increaseNewLineWithIndentLevel_def decreaseNewLineWithIndentLevel_def increaseMaxCharacterLevel_def
  decreaseAllMaxCharacterLevel_def trimEnd_def trim_def is_space_def NL_def SP_def
  resolve_def tableTokenizer_def format_def tryBegin_def inlineEligible_def
  strip_def lineEndsClean_def TAB_def

section \<open>Claims\<close>

text \<open>
  C1, as the claim states it, fails: a line comment is not emitted as its value but
  rewritten, its first \<open>--\<close> replaced by \<open>/*\<close>, its first line feed removed and
  \<open> */\<close> appended. The value \<open>-- c\<close> is nowhere in the output for \<open>a -- c\<close>.
\<close>

theorem lineComment_counterexample:
  "\<not> appearInOrder
      (map value (filter (\<lambda>t. type t \<noteq> WHITESPACE \<and> type t \<noteq> PLACEHOLDER)
         [tk OTHER ''a'', tk WHITESPACE '' '', tk LINE_COMMENT ''-- c'']))
      (snd (snd (getFormattedQueryFromTokens (exampleCollaborators []) (exampleFormatter [] 0)
         [tk OTHER ''a'', tk WHITESPACE '' '', tk LINE_COMMENT ''-- c''])))"
  by (simp add: eval_defs)

text \<open>
  C1, amended. From a formatter with no prefix pending, and when the held-back comma
  always lands (\<open>commasLand\<close>: the loop reaches no comment with the comma pending,
  reaches a placeholder with it pending only when the text returned for the placeholder
  holds it, and does not end with it pending), the texts of all tokens that are neither
  whitespace nor placeholders stand in the output of \<open>getFormattedQueryFromTokens\<close>
  as they are, one after the other in the order of the input. The text of a token is
  its value, without whitespace at its end; for a line comment it is the rewritten
  comment, for a block comment each of its lines with its line feed, for a top-level,
  newline or newline-with-indent reserved word the value with its runs of whitespace
  collapsed. This holds for every indent unit and whatever the inline block detector and
  the placeholder lookup do.
\<close>

theorem token_values_in_order:
  fixes fm :: "('ib, 'p) Formatter"
  assumes "nextLinePrepend fm = []"
    and "commasLand C (fm, tokens, []) [0..<length tokens]"
  shows "appearInOrder (concat (map emittedTexts (significant tokens)))
           (snd (snd (getFormattedQueryFromTokens C fm tokens)))"
proof -
  obtain fm1 tokens1 q where run: "fold (step C) [0..<length tokens] (fm, tokens, []) = (fm1, tokens1, q)"
    by (cases "fold (step C) [0..<length tokens] (fm, tokens, [])") auto
  obtain d h where dh: "concat (map emittedTexts (significant tokens)) = d @ h"
      "appearInOrder d (trimEnd q)" "appearInOrder h (nextLinePrepend fm1)"
      and e: "nextLinePrepend fm1 = []"
    using order_fold_step [OF assms, of "length tokens"] by (auto simp add: run)
  have "appearInOrder (d @ h) (trimEnd q)"
    using dh(2,3) e by (intro appearInOrder_empty_held) simp_all
  then have "appearInOrder (d @ h) q"
    by (rule appearInOrder_untrimmed)
  then show ?thesis
    by (simp add: getFormattedQueryFromTokens_def run dh(1))
qed

text \<open>
  The tokens of \<open>SELECT f(?, ?), b -- c\<close>, a block comment of two lines and
  \<open>ORDER  BY b\<close>, the placeholders bound to 1 and 2. The first comma is emitted inside
  the inline block, the second is held back and lands on \<open>b\<close>.
\<close>

theorem token_values_in_order_witness:
  "nextLinePrepend (exampleFormatter [''1'', ''2''] 0) = [] \<and>
   commasLand (exampleCollaborators []) (exampleFormatter [''1'', ''2''] 0,
     [tk RESERVED_TOPLEVEL ''SELECT'', tk WHITESPACE '' '', tk OTHER ''f'', tk OPEN_PAREN ''('',
      tk PLACEHOLDER ''?'', tk PUNCTUATION '','', tk WHITESPACE '' '', tk PLACEHOLDER ''?'',
      tk CLOSE_PAREN '')'', tk PUNCTUATION '','', tk WHITESPACE '' '', tk OTHER ''b'',
      tk WHITESPACE '' '', tk LINE_COMMENT ''-- c\<newline>'', tk BLOCK_COMMENT ''/* x\<newline>   y */'',
      tk WHITESPACE ''\<newline>'', tk RESERVED_TOPLEVEL ''ORDER  BY'', tk WHITESPACE '' '', tk OTHER ''b''], [])
     [0..<19] \<and>
   appearInOrder
     [''SELECT'', ''f'', ''('', '','', '')'', '','', ''b'', ''/* c */'', ''/* x\<newline>'', ''   y */'',
      ''ORDER BY'', ''b'']
     (snd (snd (getFormattedQueryFromTokens (exampleCollaborators [])
        (exampleFormatter [''1'', ''2''] 0)
        [tk RESERVED_TOPLEVEL ''SELECT'', tk WHITESPACE '' '', tk OTHER ''f'', tk OPEN_PAREN ''('',
         tk PLACEHOLDER ''?'', tk PUNCTUATION '','', tk WHITESPACE '' '', tk PLACEHOLDER ''?'',
         tk CLOSE_PAREN '')'', tk PUNCTUATION '','', tk WHITESPACE '' '', tk OTHER ''b'',
         tk WHITESPACE '' '', tk LINE_COMMENT ''-- c\<newline>'', tk BLOCK_COMMENT ''/* x\<newline>   y */'',
         tk WHITESPACE ''\<newline>'', tk RESERVED_TOPLEVEL ''ORDER  BY'', tk WHITESPACE '' '',
         tk OTHER ''b''])))"
proof -
  let ?toks = "[tk RESERVED_TOPLEVEL ''SELECT'', tk WHITESPACE '' '', tk OTHER ''f'', tk OPEN_PAREN ''('',
      tk PLACEHOLDER ''?'', tk PUNCTUATION '','', tk WHITESPACE '' '', tk PLACEHOLDER ''?'',
      tk CLOSE_PAREN '')'', tk PUNCTUATION '','', tk WHITESPACE '' '', tk OTHER ''b'',
      tk WHITESPACE '' '', tk LINE_COMMENT ''-- c\<newline>'', tk BLOCK_COMMENT ''/* x\<newline>   y */'',
      tk WHITESPACE ''\<newline>'', tk RESERVED_TOPLEVEL ''ORDER  BY'', tk WHITESPACE '' '', tk OTHER ''b'']"
  have len: "length ?toks = 19"
    by simp
  have h1: "nextLinePrepend (exampleFormatter [''1'', ''2''] 0) = []"
    by (simp add: exampleFormatter_def newFormatter_def)
  have h2: "commasLand (exampleCollaborators []) (exampleFormatter [''1'', ''2''] 0, ?toks, [])
      [0..<length ?toks]"
    by (simp add: eval_defs testLIMIT_def asciiUpper_def lowerLetters_def upperLetters_def)
  have e: "concat (map emittedTexts (significant ?toks)) =
      [''SELECT'', ''f'', ''('', '','', '')'', '','', ''b'', ''/* c */'', ''/* x\<newline>'', ''   y */'',
       ''ORDER BY'', ''b'']"
    by (simp add: significant_def tk_def emittedTexts_def lineCommentText_def trimEnd_def is_space_def
        NL_def SP_def Let_def)
  show ?thesis
    using token_values_in_order [OF h1 h2] h1 h2
    by (simp only: e len)
qed

text \<open>
  What the amended claim leaves out does fail. Whitespace at the end of a value is
  trimmed away by the next rule that trims the buffer; a block comment of several lines
  is not in the output as its value, the indent being put after its line feeds; and a
  comma held back when a comment comes is emitted after the comment.
\<close>

lemma values_not_verbatim_examples:
  "snd (snd (getFormattedQueryFromTokens (exampleCollaborators []) (exampleFormatter [] 0)
      [tk OTHER ''a '', tk PUNCTUATION ''.'', tk OTHER ''b''])) = ''a.b '' \<and>
   snd (snd (getFormattedQueryFromTokens (exampleCollaborators []) (exampleFormatter [] 0)
      [tk RESERVED_TOPLEVEL ''SELECT'', tk WHITESPACE '' '', tk BLOCK_COMMENT ''/*\<newline>x*/'']))
     = ''\<newline>SELECT\<newline>  /*\<newline>  x*/\<newline>  '' \<and>
   snd (snd (getFormattedQueryFromTokens (exampleCollaborators []) (exampleFormatter [] 0)
      [tk OTHER ''a'', tk PUNCTUATION '','', tk WHITESPACE '' '', tk LINE_COMMENT ''-- c\<newline>'',
       tk OTHER ''b''])) = ''a\<newline>/* c */\<newline>,b ''"
  by (simp add: eval_defs)

text \<open>
  C2, as the claim states it, fails in its conclusion: the rule takes one off the
  newline-with-indent counter, not all of it, so a top-level reserved word that follows
  two newline-with-indent reserved words stands one unit further in than the one before
  it. In \<open>SELECT a ON x ON y WHERE z\<close> the line of \<open>SELECT\<close> has no indent
  and the line of \<open>WHERE\<close> has one unit.
\<close>

theorem toplevel_indent_counterexample:
  "split_nl (snd (snd (getFormattedQueryFromTokens (exampleCollaborators []) (exampleFormatter [] 0)
     [tk RESERVED_TOPLEVEL ''SELECT'', tk WHITESPACE '' '', tk OTHER ''a'', tk WHITESPACE '' '',
      tk RESERVED_NEWLINE_WITH_INDENT ''ON'', tk WHITESPACE '' '', tk OTHER ''x'', tk WHITESPACE '' '',
      tk RESERVED_NEWLINE_WITH_INDENT ''ON'', tk WHITESPACE '' '', tk OTHER ''y'', tk WHITESPACE '' '',
      tk RESERVED_TOPLEVEL ''WHERE'', tk WHITESPACE '' '', tk OTHER ''z''])))
   = [[], ''SELECT'', ''  a'', ''    ON x'', ''      ON y'', ''  WHERE'', ''    z '']"
  by (simp add: eval_defs)

text \<open>
  C2, amended. Whenever \<open>getFormattedQueryFromTokens\<close>, started from a formatter
  whose toplevel counter is at most one (the constructor sets it to zero, and the loop
  keeps it at most one), reaches a token of type reserved-toplevel: the overflow counter
  is reset, one is taken off the newline-with-indent counter and one off the toplevel
  counter, which is then zero, a new line is started, the toplevel counter becomes one,
  the keyword is appended with every run of whitespace collapsed to one space, and
  another new line is started. So the keyword stands on a line indented by \<open>level\<close>
  units, \<open>level\<close> being the block level plus the newline-with-indent levels still open
  beyond the one just closed, and the line after it is indented one unit more. At a
  given block level all top-level reserved words begin at the same indent as long as at
  most one newline-with-indent level is open when each is reached. The keyword is the
  token's value with a pending prefix in front, as the loop writes it. The step from any
  state is lemma \<open>toplevel_keyword_step\<close>.
\<close>

theorem toplevel_clause_layout:
  fixes fm0 :: "('ib, 'p) Formatter"
  assumes "topLevel (indentation fm0) \<le> 1"
    and "index < length tokens" and "type (tokens ! index) = RESERVED_TOPLEVEL"
  shows "case fold (step C) [0..<index] (fm0, tokens, []) of (fm, tokens0, query) \<Rightarrow>
    (case step C index (fm, tokens0, query) of (fm1, tokens1, query1) \<Rightarrow>
      (let tok = prependToken fm (tokens ! index);
           i = indentation fm;
           level = blockLevel i + (newLineWithIndentLevel i - 1);
           keyword = collapseSpec False (value tok)
       in maxCharacterLevel (indentation fm1) = 0 \<and>
          newLineWithIndentLevel (indentation fm1) = newLineWithIndentLevel i - 1 \<and>
          topLevel i - 1 = 0 \<and>
          topLevel (indentation fm1) = 1 \<and>
          blockLevel (indentation fm1) = blockLevel i \<and>
          indent (indentation fm1) = indent i \<and>
          query1 = trimEnd (trimEnd query @ [NL] @ concat (replicate level (indent i)) @ keyword)
                     @ [NL] @ concat (replicate (level + 1) (indent i))))"
proof -
  obtain fm tokens0 query where
    run: "fold (step C) [0..<index] (fm0, tokens, []) = (fm, tokens0, query)"
    by (cases "fold (step C) [0..<index] (fm0, tokens, [])") auto
  have r: "topLevel (indentation fm) \<le> 1"
    using constants_fold_step [OF assms(1), where n = index and tokens = tokens and C = C]
      assms(2) run by simp
  have l: "length tokens0 = length tokens" "tokens0 ! index = tokens ! index"
    using fold_step_later [where n = index and tokens = tokens and C = C and fm = fm0]
      assms(2) run by auto
  have i: "index < length tokens0" and t: "type (tokens0 ! index) = RESERVED_TOPLEVEL"
    using l assms(2,3) by simp_all
  have z: "topLevel (indentation fm) - 1 = 0"
    using r by simp
  show ?thesis
    using toplevel_keyword_step [OF i t, where C = C and fm = fm and query = query] z
    by (simp add: run l(2) Let_def equalizeWhitespace_collapseSpec split: prod.splits)
qed

text \<open>
  The keyword \<open>GROUP BY\<close>, written with two spaces, a line feed and a space between
  its words, after \<open>SELECT a\<close>: it goes to a line without indent, its whitespace
  collapsed to one space, and the next line is indented by one unit.
\<close>

theorem toplevel_clause_layout_witness:
  "topLevel (indentation (exampleFormatter [] 0)) \<le> 1 \<and>
   (4::nat) < length
     [tk RESERVED_TOPLEVEL ''SELECT'', tk WHITESPACE '' '', tk OTHER ''a'', tk WHITESPACE ''\<newline>'',
      tk RESERVED_TOPLEVEL ''GROUP  \<newline> BY'', tk WHITESPACE '' '', tk OTHER ''a''] \<and>
   type ([tk RESERVED_TOPLEVEL ''SELECT'', tk WHITESPACE '' '', tk OTHER ''a'', tk WHITESPACE ''\<newline>'',
      tk RESERVED_TOPLEVEL ''GROUP  \<newline> BY'', tk WHITESPACE '' '', tk OTHER ''a''] ! 4) = RESERVED_TOPLEVEL \<and>
   snd (snd (step (exampleCollaborators []) 4
     (fold (step (exampleCollaborators [])) [0..<4] (exampleFormatter [] 0,
        [tk RESERVED_TOPLEVEL ''SELECT'', tk WHITESPACE '' '', tk OTHER ''a'', tk WHITESPACE ''\<newline>'',
         tk RESERVED_TOPLEVEL ''GROUP  \<newline> BY'', tk WHITESPACE '' '', tk OTHER ''a''], []))))
     = ''\<newline>SELECT\<newline>  a\<newline>GROUP BY\<newline>  ''"
proof -
  let ?toks = "[tk RESERVED_TOPLEVEL ''SELECT'', tk WHITESPACE '' '', tk OTHER ''a'', tk WHITESPACE ''\<newline>'',
      tk RESERVED_TOPLEVEL ''GROUP  \<newline> BY'', tk WHITESPACE '' '', tk OTHER ''a'']"
  have h1: "topLevel (indentation (exampleFormatter [] 0)) \<le> 1"
    by (simp add: exampleFormatter_def newFormatter_def newIndentation_def)
  have h2: "(4::nat) < length ?toks"
    by simp
  have h3: "type (?toks ! 4) = RESERVED_TOPLEVEL"
    by (simp add: tk_def)
  have run: "fold (step (exampleCollaborators [])) [0..<4] (exampleFormatter [] 0, ?toks, []) =
      ((exampleFormatter [] 0)\<lparr>indentation := (newIndentation ''  '')\<lparr>topLevel := 1\<rparr>,
          previousReservedWord := Some (tk RESERVED_TOPLEVEL ''SELECT'')\<rparr>, ?toks, ''\<newline>SELECT\<newline>  a '')"
    by (simp add: eval_defs eval_nat_numeral)
  show ?thesis
    using toplevel_clause_layout [OF h1 h2 h3, where C = "exampleCollaborators []"] h1 h2 h3
    apply (simp only: run)
    apply (simp add: eval_defs SP_def split: prod.splits)
    done
qed



text \<open>The whole clause \<open>LIMIT 10, 20\<close> through the loop.\<close>

lemma limit_clause_example:
  "snd (snd (getFormattedQueryFromTokens (exampleCollaborators []) (exampleFormatter [] 0)
      [tk RESERVED_TOPLEVEL ''LIMIT'', tk WHITESPACE '' '', tk OTHER ''10'', tk PUNCTUATION '','',
       tk WHITESPACE '' '', tk OTHER ''20''])) = ''\<newline>LIMIT\<newline>  10, 20 ''"
  by (simp add: eval_defs testLIMIT_def asciiUpper_def lowerLetters_def upperLetters_def)

text \<open>
  C4. The first statement of the loop does write a pending prefix in front of the next
  token that is no whitespace and no comment, and empties it. For a placeholder the text
  emitted is what \<open>Params.get\<close> returns for the rewritten token, and a lookup that
  substitutes a value returns it without the prefix: on the tokens of \<open>a, ?\<close> with the
  value \<open>1\<close> the comma is in the output nowhere.
\<close>

theorem placeholder_drops_comma:
  "snd (snd (getFormattedQueryFromTokens (exampleCollaborators []) (exampleFormatter [''1''] 0)
      [tk OTHER ''a'', tk PUNCTUATION '','', tk WHITESPACE '' '', tk PLACEHOLDER ''?''])) = ''a\<newline>1 ''"
  by (simp add: eval_defs)

text \<open>
  C5, as the claim states it, fails on the lines of a reindented block comment: the
  indent is put after every line feed of the comment, also before an empty line. The
  comment \<open>/*\<close>, empty line, \<open>*/\<close> after \<open>SELECT\<close> gives a line of two spaces.
\<close>

theorem blockComment_counterexample:
  "\<not> list_all lineEndsClean (split_nl (snd (format
      (exampleCollaborators [(''SELECT /*\<newline>\<newline>*/'',
         [tk RESERVED_TOPLEVEL ''SELECT'', tk WHITESPACE '' '', tk BLOCK_COMMENT ''/*\<newline>\<newline>*/''])])
      (exampleFormatter [] 0) ''SELECT /*\<newline>\<newline>*/'')))"
  by (simp add: eval_defs)

text \<open>
  C5, amended. For every input the string \<open>format\<close> returns has no whitespace at its
  start or end. Every line of it, the lines being the pieces between line feeds, ends in
  neither a space nor a tab when the indent unit holds no line feed and no dollar sign
  (the indent is put into a block comment as a replacement pattern), no prefix with a
  line feed is pending at the start, every token brings no blank to the end of a line
  (\<open>cleanToken\<close>) and so does every text returned for a placeholder
  (\<open>resolvedClean\<close>). Whitespace tokens and the reserved words that start a line need
  nothing, so a query of many lines, with line comments and with block comments of
  several lines, meets the condition.
\<close>

theorem format_lines_clean:
  "(snd (format C fm query) = [] \<or>
    (\<not> is_space (hd (snd (format C fm query))) \<and> \<not> is_space (last (snd (format C fm query))))) \<and>
   (NL \<notin> set (indent (indentation fm)) \<and> CHR ''$'' \<notin> set (indent (indentation fm)) \<and>
    NL \<notin> set (nextLinePrepend fm) \<and> list_all cleanToken (tokenize C query) \<and>
    resolvedClean C (fm, tokenize C query, []) [0..<length (tokenize C query)]
    \<longrightarrow> list_all lineEndsClean (split_nl (snd (format C fm query))))"
proof -
  obtain fm1 tokens1 q where
    run: "getFormattedQueryFromTokens C fm (tokenize C query) = (fm1, tokens1, q)"
    by (cases "getFormattedQueryFromTokens C fm (tokenize C query)") auto
  have out: "snd (format C fm query) = trim q"
    by (simp add: format_def run)
  have ends: "trim q = [] \<or> (\<not> is_space (hd (trim q)) \<and> \<not> is_space (last (trim q)))"
    by (rule trim_ends)
  have "list_all lineEndsClean (split_nl (trim q))"
    if h: "NL \<notin> set (indent (indentation fm))" "CHR ''$'' \<notin> set (indent (indentation fm))"
      "NL \<notin> set (nextLinePrepend fm)" "list_all cleanToken (tokenize C query)"
      "resolvedClean C (fm, tokenize C query, []) [0..<length (tokenize C query)]"
  proof -
    have "\<not> blankBeforeNL q"
      using clean_fold_step [OF h, of "length (tokenize C query)"] run
      by (simp add: getFormattedQueryFromTokens_def)
    then have "\<not> blankBeforeNL (trim q)"
      by (rule blankBeforeNL_trim)
    then show ?thesis
      using ends by (intro lines_clean) auto
  qed
  then show ?thesis
    unfolding out using ends by blast
qed

text \<open>
  A query of five lines with a placeholder bound to 1, a held-back comma, a line comment
  that ends in a line feed and a block comment of two lines.
\<close>

theorem format_lines_clean_witness:
  "NL \<notin> set (indent (indentation (exampleFormatter [''1''] 0))) \<and>
   CHR ''$'' \<notin> set (indent (indentation (exampleFormatter [''1''] 0))) \<and>
   NL \<notin> set (nextLinePrepend (exampleFormatter [''1''] 0)) \<and>
   list_all cleanToken
     [tk RESERVED_TOPLEVEL ''SELECT'', tk WHITESPACE '' '', tk PLACEHOLDER ''?'', tk PUNCTUATION '','',
      tk WHITESPACE '' '', tk OTHER ''a'', tk WHITESPACE '' '', tk LINE_COMMENT ''-- c\<newline>'',
      tk WHITESPACE ''  '', tk BLOCK_COMMENT ''/* x\<newline>   y */'', tk WHITESPACE '' \<newline>'',
      tk RESERVED_TOPLEVEL ''FROM'', tk WHITESPACE ''\<newline>  '', tk OTHER ''t''] \<and>
   snd (format
      (exampleCollaborators [(''SELECT ?, a -- c\<newline>  /* x\<newline>   y */ \<newline>FROM\<newline>  t'',
         [tk RESERVED_TOPLEVEL ''SELECT'', tk WHITESPACE '' '', tk PLACEHOLDER ''?'', tk PUNCTUATION '','',
          tk WHITESPACE '' '', tk OTHER ''a'', tk WHITESPACE '' '', tk LINE_COMMENT ''-- c\<newline>'',
          tk WHITESPACE ''  '', tk BLOCK_COMMENT ''/* x\<newline>   y */'', tk WHITESPACE '' \<newline>'',
          tk RESERVED_TOPLEVEL ''FROM'', tk WHITESPACE ''\<newline>  '', tk OTHER ''t''])])
      (exampleFormatter [''1''] 0) ''SELECT ?, a -- c\<newline>  /* x\<newline>   y */ \<newline>FROM\<newline>  t'')
     = ''SELECT\<newline>  1\<newline>  ,a /* c */\<newline>  /* x\<newline>     y */\<newline>FROM\<newline>  t'' \<and>
   list_all lineEndsClean (split_nl (snd (format
      (exampleCollaborators [(''SELECT ?, a -- c\<newline>  /* x\<newline>   y */ \<newline>FROM\<newline>  t'',
         [tk RESERVED_TOPLEVEL ''SELECT'', tk WHITESPACE '' '', tk PLACEHOLDER ''?'', tk PUNCTUATION '','',
          tk WHITESPACE '' '', tk OTHER ''a'', tk WHITESPACE '' '', tk LINE_COMMENT ''-- c\<newline>'',
          tk WHITESPACE ''  '', tk BLOCK_COMMENT ''/* x\<newline>   y */'', tk WHITESPACE '' \<newline>'',
          tk RESERVED_TOPLEVEL ''FROM'', tk WHITESPACE ''\<newline>  '', tk OTHER ''t''])])
      (exampleFormatter [''1''] 0) ''SELECT ?, a -- c\<newline>  /* x\<newline>   y */ \<newline>FROM\<newline>  t'')))"
proof -
  let ?toks = "[tk RESERVED_TOPLEVEL ''SELECT'', tk WHITESPACE '' '', tk PLACEHOLDER ''?'', tk PUNCTUATION '','',
      tk WHITESPACE '' '', tk OTHER ''a'', tk WHITESPACE '' '', tk LINE_COMMENT ''-- c\<newline>'',
      tk WHITESPACE ''  '', tk BLOCK_COMMENT ''/* x\<newline>   y */'', tk WHITESPACE '' \<newline>'',
      tk RESERVED_TOPLEVEL ''FROM'', tk WHITESPACE ''\<newline>  '', tk OTHER ''t'']"
  let ?q = "''SELECT ?, a -- c\<newline>  /* x\<newline>   y */ \<newline>FROM\<newline>  t''"
  let ?C = "exampleCollaborators [(?q, ?toks)]"
  let ?F = "exampleFormatter [''1''] 0"
  have tz: "tokenize ?C ?q = ?toks"
    by (simp add: exampleCollaborators_def tableTokenizer_def)
  have h1: "NL \<notin> set (indent (indentation ?F))" "CHR ''$'' \<notin> set (indent (indentation ?F))"
      "NL \<notin> set (nextLinePrepend ?F)"
    by (simp_all add: exampleFormatter_def newFormatter_def newIndentation_def NL_def)
  have h2: "list_all cleanToken ?toks"
    by (simp add: cleanToken_def cleanText_def tk_def lineCommentText_def NL_def SP_def TAB_def)
  have h3: "resolvedClean ?C (?F, ?toks, []) [0..<length ?toks]"
    by (simp add: eval_defs cleanText_def testLIMIT_def asciiUpper_def lowerLetters_def
        upperLetters_def)
  have out: "snd (format ?C ?F ?q) =
      ''SELECT\<newline>  1\<newline>  ,a /* c */\<newline>  /* x\<newline>     y */\<newline>FROM\<newline>  t''"
    by (simp add: eval_defs testLIMIT_def asciiUpper_def lowerLetters_def upperLetters_def)
  have "list_all lineEndsClean (split_nl (snd (format ?C ?F ?q)))"
    using format_lines_clean [where C = ?C and fm = ?F and query = ?q] h1 h2 h3
    by (simp only: tz) blast
  then show ?thesis
    using h1 h2 out by blast
qed

text \<open>
  The conditions cannot be dropped: a value with a space before a line feed, a value that
  begins with a line feed, and an indent unit with the pattern \<open>$&\<close>, which stands for
  the line feed replaced, each give a line that ends in a space.
\<close>

lemma blank_line_end_examples:
  "snd (format (exampleCollaborators [(''q'', [tk OTHER ''a'', tk WHITESPACE '' '', tk OTHER ''<a \<newline>b>''])])
      (exampleFormatter [] 0) ''q'') = ''a <a \<newline>b>'' \<and>
   snd (format (exampleCollaborators [(''q'', [tk OTHER ''a'', tk OTHER ''\<newline>b''])])
      (exampleFormatter [] 0) ''q'') = ''a \<newline>b'' \<and>
   snd (format (exampleCollaborators [(''q'',
        [tk RESERVED_TOPLEVEL ''SELECT'', tk WHITESPACE '' '', tk BLOCK_COMMENT ''/*\<newline>x*/''])])
      (newFormatter '' $&'' False [] 0) ''q'')
     = ''SELECT\<newline> $&\<newline> $&/*\<newline> \<newline>x*/\<newline> $&''"
  by (simp add: eval_defs)

text \<open>
  C6, as the claim states it, fails: the loop writes the pending prefix into the token
  it is glued to. After the call on the tokens of \<open>a, b\<close> the last token is \<open>,b\<close>.
\<close>

theorem tokens_counterexample:
  "fst (snd (getFormattedQueryFromTokens (exampleCollaborators []) (exampleFormatter [] 0)
      [tk OTHER ''a'', tk PUNCTUATION '','', tk WHITESPACE '' '', tk OTHER ''b'']))
   \<noteq> [tk OTHER ''a'', tk PUNCTUATION '','', tk WHITESPACE '' '', tk OTHER ''b'']"
  by (simp add: eval_defs)

text \<open>
  C6, amended. The call leaves the length of the sequence and the type of every token
  as they were. A whitespace or comment token is left as it was; the value of any other
  token is afterwards what it was, or that with a comma in front. This holds from a
  formatter whose pending prefix is empty or a comma, as the constructor and every call
  leave it.
\<close>

theorem tokens_after_call:
  assumes "nextLinePrepend fm = [] \<or> nextLinePrepend fm = '',''"
  shows "case getFormattedQueryFromTokens C fm tokens of (fm1, tokens1, q) \<Rightarrow>
      length tokens1 = length tokens \<and>
      (\<forall>i < length tokens. tokenKept (tokens ! i) (tokens1 ! i))"
  using tokens_fold_step [OF assms, where n = "length tokens" and tokens = tokens and C = C]
  by (auto simp add: getFormattedQueryFromTokens_def)

text \<open>
  The tokens of \<open>a, b\<close>: the call leaves four tokens, the last with a comma in front.
\<close>

theorem tokens_after_call_witness:
  "nextLinePrepend (exampleFormatter [] 0) = [] \<and>
   (case getFormattedQueryFromTokens (exampleCollaborators []) (exampleFormatter [] 0)
          [tk OTHER ''a'', tk PUNCTUATION '','', tk WHITESPACE '' '', tk OTHER ''b''] of
      (fm1, tokens1, q) \<Rightarrow>
        length tokens1 = length [tk OTHER ''a'', tk PUNCTUATION '','', tk WHITESPACE '' '', tk OTHER ''b''] \<and>
        (\<forall>i < length [tk OTHER ''a'', tk PUNCTUATION '','', tk WHITESPACE '' '', tk OTHER ''b''].
           tokenKept ([tk OTHER ''a'', tk PUNCTUATION '','', tk WHITESPACE '' '', tk OTHER ''b''] ! i)
             (tokens1 ! i)))"
  using tokens_after_call [where fm = "exampleFormatter [] 0" and C = "exampleCollaborators []"
      and tokens = "[tk OTHER ''a'', tk PUNCTUATION '','', tk WHITESPACE '' '', tk OTHER ''b'']"]
  by (simp add: exampleFormatter_def newFormatter_def)

text \<open>
  C7, as the claim states it, fails: the constructor sets the state and \<open>format\<close>
  does not reset it. After \<open>format\<close> of \<open>a,\<close> the comma is still pending, and
  \<open>format\<close> of \<open>b\<close> on the same formatter returns \<open>,b\<close>, where a new formatter
  returns \<open>b\<close>.
\<close>

theorem reuse_counterexample:
  "snd (format (exampleCollaborators [(''a,'', [tk OTHER ''a'', tk PUNCTUATION '','']), (''b'', [tk OTHER ''b''])])
      (fst (format (exampleCollaborators [(''a,'', [tk OTHER ''a'', tk PUNCTUATION '','']), (''b'', [tk OTHER ''b''])])
         (exampleFormatter [] 0) ''a,'')) ''b'')
   \<noteq> snd (format (exampleCollaborators [(''a,'', [tk OTHER ''a'', tk PUNCTUATION '','']), (''b'', [tk OTHER ''b''])])
      (exampleFormatter [] 0) ''b'')"
  by (simp add: eval_defs)

text \<open>
  C7, amended. The constructor sets the state and \<open>format\<close> does not reset it: a
  call starts from what the call before left. On a formatter that has run \<open>format\<close>
  of \<open>q1\<close>, \<open>format\<close> of \<open>q2\<close> returns what it returns on a new formatter
  of the same configuration when the first call left no parenthesis open (the block
  level at zero and the inline block as constructed), no comma pending, and either the
  placeholder lookup as constructed or \<open>q2\<close> without placeholders, and one of these
  holds: \<open>q2\<close> begins, whitespace aside, with a top-level reserved word and the first
  call left at most one newline-with-indent level open; or the first call left the
  toplevel, newline-with-indent and overflow counters at zero and no previous reserved
  word that matches LIMIT. A top-level reserved word at the start of \<open>q2\<close> closes what
  the first call left of the toplevel counter, the overflow counter, one
  newline-with-indent level and the previous reserved word.
\<close>

theorem format_reuse:
  fixes C :: "('ib, 'p) collaborators"
  assumes used: "used = fst (format C (newFormatter unit ib ps maxChars) q1)"
    and b: "blockLevel (indentation used) = 0"
    and ia: "inlineBlock used = ib"
    and np: "nextLinePrepend used = []"
    and pa: "params used = ps \<or> list_all (\<lambda>t. type t \<noteq> PLACEHOLDER) (tokenize C q2)"
    and st: "(firstIsToplevel (tokenize C q2) \<and> newLineWithIndentLevel (indentation used) \<le> 1) \<or>
        (topLevel (indentation used) = 0 \<and> newLineWithIndentLevel (indentation used) = 0 \<and>
         maxCharacterLevel (indentation used) = 0 \<and> \<not> previousIsLIMIT used)"
  shows "snd (format C used q2) = snd (format C (newFormatter unit ib ps maxChars) q2)"
proof -
  let ?new = "newFormatter unit ib ps maxChars"
  let ?usedP = "used\<lparr>params := ps\<rparr>"
  have "topLevel (indentation ?new) \<le> 1"
    by (simp add: newFormatter_def newIndentation_def)
  then have c: "topLevel (indentation used) \<le> 1" "indent (indentation used) = unit"
      "maxCharacterPerLine used = maxChars"
    using constants_fold_step [where fm = ?new and n = "length (tokenize C q1)"
        and tokens = "tokenize C q1" and C = C]
    by (simp_all add: used format_def getFormattedQueryFromTokens_def case_prod_beta
        newFormatter_def newIndentation_def)
  have one: "snd (format C used q2) = snd (format C ?usedP q2)"
  proof (cases "params used = ps")
    case True
    then have "?usedP = used"
      by simp
    then show ?thesis
      by simp
  next
    case False
    then have "list_all (\<lambda>t. type t \<noteq> PLACEHOLDER) (tokenize C q2)"
      using pa by simp
    then have "snd (format C (?usedP\<lparr>params := params used\<rparr>) q2) = snd (format C ?usedP q2)"
      by (rule format_params)
    then show ?thesis
      by simp
  qed
  have two: "snd (format C ?usedP q2) = snd (format C ?new q2)"
    using st
  proof
    assume a: "firstIsToplevel (tokenize C q2) \<and> newLineWithIndentLevel (indentation used) \<le> 1"
    have e: "?usedP = ?new\<lparr>indentation := indentation used,
        previousReservedWord := previousReservedWord used\<rparr>"
      using ia np c(3) by (intro Formatter.equality) (simp_all add: newFormatter_def)
    have "snd (format C (?new\<lparr>indentation := indentation used,
        previousReservedWord := previousReservedWord used\<rparr>) q2) = snd (format C ?new q2)"
      using a b c(1,2)
      by (intro format_toplevel_closes) (simp_all add: newFormatter_def newIndentation_def)
    then show ?thesis
      by (simp only: e)
  next
    assume a: "topLevel (indentation used) = 0 \<and> newLineWithIndentLevel (indentation used) = 0 \<and>
         maxCharacterLevel (indentation used) = 0 \<and> \<not> previousIsLIMIT used"
    have i: "indentation used = newIndentation unit"
      using a b c(2) by (intro Indentation.equality) (simp_all add: newIndentation_def)
    have "sameStart ?new ?usedP"
      using a i ia np c(3) by (simp add: sameStart_def newFormatter_def previousIsLIMIT_def)
    then show ?thesis
      by (rule format_sameStart)
  qed
  show ?thesis
    using one two by simp
qed

text \<open>
  After \<open>SELECT COUNT(?) FROM t JOIN u ON x\<close>, with the placeholder bound to 1, the
  positional value is used up, the toplevel counter and the newline-with-indent counter
  are at one and the previous reserved word is \<open>ON\<close>; \<open>SELECT a, b\<close> is then
  formatted as by a new formatter.
\<close>

theorem format_reuse_witness:
  "params (fst (format
      (exampleCollaborators
        [(''SELECT COUNT(?) FROM t JOIN u ON x'',
          [tk RESERVED_TOPLEVEL ''SELECT'', tk WHITESPACE '' '', tk OTHER ''COUNT'', tk OPEN_PAREN ''('',
           tk PLACEHOLDER ''?'', tk CLOSE_PAREN '')'', tk WHITESPACE '' '', tk RESERVED_TOPLEVEL ''FROM'',
           tk WHITESPACE '' '', tk OTHER ''t'', tk WHITESPACE '' '', tk RESERVED_NEWLINE ''JOIN'',
           tk WHITESPACE '' '', tk OTHER ''u'', tk WHITESPACE '' '',
           tk RESERVED_NEWLINE_WITH_INDENT ''ON'', tk WHITESPACE '' '', tk OTHER ''x'']),
         (''SELECT a, b'',
          [tk RESERVED_TOPLEVEL ''SELECT'', tk WHITESPACE '' '', tk OTHER ''a'', tk PUNCTUATION '','',
           tk WHITESPACE '' '', tk OTHER ''b''])])
      (newFormatter ''  '' False [''1''] 0) ''SELECT COUNT(?) FROM t JOIN u ON x'')) = [] \<and>
   indentation (fst (format
      (exampleCollaborators
        [(''SELECT COUNT(?) FROM t JOIN u ON x'',
          [tk RESERVED_TOPLEVEL ''SELECT'', tk WHITESPACE '' '', tk OTHER ''COUNT'', tk OPEN_PAREN ''('',
           tk PLACEHOLDER ''?'', tk CLOSE_PAREN '')'', tk WHITESPACE '' '', tk RESERVED_TOPLEVEL ''FROM'',
           tk WHITESPACE '' '', tk OTHER ''t'', tk WHITESPACE '' '', tk RESERVED_NEWLINE ''JOIN'',
           tk WHITESPACE '' '', tk OTHER ''u'', tk WHITESPACE '' '',
           tk RESERVED_NEWLINE_WITH_INDENT ''ON'', tk WHITESPACE '' '', tk OTHER ''x'']),
         (''SELECT a, b'',
          [tk RESERVED_TOPLEVEL ''SELECT'', tk WHITESPACE '' '', tk OTHER ''a'', tk PUNCTUATION '','',
           tk WHITESPACE '' '', tk OTHER ''b''])])
      (newFormatter ''  '' False [''1''] 0) ''SELECT COUNT(?) FROM t JOIN u ON x''))
     = \<lparr>indent = ''  '', topLevel = 1, blockLevel = 0, newLineWithIndentLevel = 1,
        maxCharacterLevel = 0\<rparr> \<and>
   snd (format
      (exampleCollaborators
        [(''SELECT COUNT(?) FROM t JOIN u ON x'',
          [tk RESERVED_TOPLEVEL ''SELECT'', tk WHITESPACE '' '', tk OTHER ''COUNT'', tk OPEN_PAREN ''('',
           tk PLACEHOLDER ''?'', tk CLOSE_PAREN '')'', tk WHITESPACE '' '', tk RESERVED_TOPLEVEL ''FROM'',
           tk WHITESPACE '' '', tk OTHER ''t'', tk WHITESPACE '' '', tk RESERVED_NEWLINE ''JOIN'',
           tk WHITESPACE '' '', tk OTHER ''u'', tk WHITESPACE '' '',
           tk RESERVED_NEWLINE_WITH_INDENT ''ON'', tk WHITESPACE '' '', tk OTHER ''x'']),
         (''SELECT a, b'',
          [tk RESERVED_TOPLEVEL ''SELECT'', tk WHITESPACE '' '', tk OTHER ''a'', tk PUNCTUATION '','',
           tk WHITESPACE '' '', tk OTHER ''b''])])
      (fst (format
        (exampleCollaborators
          [(''SELECT COUNT(?) FROM t JOIN u ON x'',
            [tk RESERVED_TOPLEVEL ''SELECT'', tk WHITESPACE '' '', tk OTHER ''COUNT'', tk OPEN_PAREN ''('',
             tk PLACEHOLDER ''?'', tk CLOSE_PAREN '')'', tk WHITESPACE '' '', tk RESERVED_TOPLEVEL ''FROM'',
             tk WHITESPACE '' '', tk OTHER ''t'', tk WHITESPACE '' '', tk RESERVED_NEWLINE ''JOIN'',
             tk WHITESPACE '' '', tk OTHER ''u'', tk WHITESPACE '' '',
             tk RESERVED_NEWLINE_WITH_INDENT ''ON'', tk WHITESPACE '' '', tk OTHER ''x'']),
           (''SELECT a, b'',
            [tk RESERVED_TOPLEVEL ''SELECT'', tk WHITESPACE '' '', tk OTHER ''a'', tk PUNCTUATION '','',
             tk WHITESPACE '' '', tk OTHER ''b''])])
        (newFormatter ''  '' False [''1''] 0) ''SELECT COUNT(?) FROM t JOIN u ON x''))
      ''SELECT a, b'')
     = ''SELECT\<newline>  a\<newline>  ,b''"
proof -
  let ?q1 = "''SELECT COUNT(?) FROM t JOIN u ON x''"
  let ?q2 = "''SELECT a, b''"
  let ?t1 = "[tk RESERVED_TOPLEVEL ''SELECT'', tk WHITESPACE '' '', tk OTHER ''COUNT'', tk OPEN_PAREN ''('',
           tk PLACEHOLDER ''?'', tk CLOSE_PAREN '')'', tk WHITESPACE '' '', tk RESERVED_TOPLEVEL ''FROM'',
           tk WHITESPACE '' '', tk OTHER ''t'', tk WHITESPACE '' '', tk RESERVED_NEWLINE ''JOIN'',
           tk WHITESPACE '' '', tk OTHER ''u'', tk WHITESPACE '' '',
           tk RESERVED_NEWLINE_WITH_INDENT ''ON'', tk WHITESPACE '' '', tk OTHER ''x'']"
  let ?t2 = "[tk RESERVED_TOPLEVEL ''SELECT'', tk WHITESPACE '' '', tk OTHER ''a'', tk PUNCTUATION '','',
           tk WHITESPACE '' '', tk OTHER ''b'']"
  let ?C = "exampleCollaborators [(?q1, ?t1), (?q2, ?t2)]"
  let ?new = "newFormatter ''  '' False [''1''] 0"
  let ?used = "fst (format ?C ?new ?q1)"
  have u: "?used = \<lparr>indentation = \<lparr>indent = ''  '', topLevel = 1, blockLevel = 0,
        newLineWithIndentLevel = 1, maxCharacterLevel = 0\<rparr>, inlineBlock = False, params = [],
      previousReservedWord = Some (tk RESERVED_NEWLINE_WITH_INDENT ''ON''), nextLinePrepend = [],
      maxCharacterPerLine = 0\<rparr>"
    by (simp add: eval_defs toUpperCase_def upperChar_def lowerLetters_def upperLetters_def
        lowerAccented_def upperAccented_def dropNewLineWithIndentLevel_def)
  have t2: "tokenize ?C ?q2 = ?t2"
    by (simp add: exampleCollaborators_def tableTokenizer_def)
  have h: "blockLevel (indentation ?used) = 0" "inlineBlock ?used = False" "nextLinePrepend ?used = []"
      "params ?used = [''1''] \<or> list_all (\<lambda>t. type t \<noteq> PLACEHOLDER) (tokenize ?C ?q2)"
      "(firstIsToplevel (tokenize ?C ?q2) \<and> newLineWithIndentLevel (indentation ?used) \<le> 1) \<or>
        (topLevel (indentation ?used) = 0 \<and> newLineWithIndentLevel (indentation ?used) = 0 \<and>
         maxCharacterLevel (indentation ?used) = 0 \<and> \<not> previousIsLIMIT ?used)"
    by (simp_all only: u t2) (simp_all add: tk_def firstIsToplevel_def)
  have new: "snd (format ?C ?new ?q2) = ''SELECT\<newline>  a\<newline>  ,b''"
    by (simp add: eval_defs testLIMIT_def asciiUpper_def lowerLetters_def upperLetters_def)
  have "snd (format ?C ?used ?q2) = snd (format ?C ?new ?q2)"
    using format_reuse [OF refl h] .
  then show ?thesis
    using u new by simp
qed

text \<open>
  Without a top-level reserved word at its start the second query shows the toplevel
  counter the first one left: after \<open>SELECT a\<close>, \<open>a, b\<close> comes out with its
  second line indented, which a new formatter does not do.
\<close>

lemma reuse_indent_example:
  "snd (format
      (exampleCollaborators
        [(''SELECT a'', [tk RESERVED_TOPLEVEL ''SELECT'', tk WHITESPACE '' '', tk OTHER ''a'']),
         (''a, b'', [tk OTHER ''a'', tk PUNCTUATION '','', tk WHITESPACE '' '', tk OTHER ''b''])])
      (fst (format
        (exampleCollaborators
          [(''SELECT a'', [tk RESERVED_TOPLEVEL ''SELECT'', tk WHITESPACE '' '', tk OTHER ''a'']),
           (''a, b'', [tk OTHER ''a'', tk PUNCTUATION '','', tk WHITESPACE '' '', tk OTHER ''b''])])
        (exampleFormatter [] 0) ''SELECT a'')) ''a, b'') = ''a\<newline>  ,b'' \<and>
   snd (format
      (exampleCollaborators
        [(''SELECT a'', [tk RESERVED_TOPLEVEL ''SELECT'', tk WHITESPACE '' '', tk OTHER ''a'']),
         (''a, b'', [tk OTHER ''a'', tk PUNCTUATION '','', tk WHITESPACE '' '', tk OTHER ''b''])])
      (exampleFormatter [] 0) ''a, b'') = ''a\<newline>,b''"
  by (simp add: eval_defs testLIMIT_def asciiUpper_def lowerLetters_def upperLetters_def)

text \<open>
  C8. The two line feeds appended after a semicolon are whitespace at the end of the
  buffer, and the next rule that starts a new line or trims the buffer removes them.
  \<open>SELECT 1; SELECT 2\<close> comes out with the second statement on the line right after
  the semicolon.
\<close>

theorem semicolon_blank_line_lost:
  "snd (format
      (exampleCollaborators [(''SELECT 1; SELECT 2'',
         [tk RESERVED_TOPLEVEL ''SELECT'', tk WHITESPACE '' '', tk OTHER ''1'', tk PUNCTUATION '';'',
          tk WHITESPACE '' '', tk RESERVED_TOPLEVEL ''SELECT'', tk WHITESPACE '' '', tk OTHER ''2''])])
      (exampleFormatter [] 0) ''SELECT 1; SELECT 2'')
   = ''SELECT\<newline>  1;\<newline>SELECT\<newline>  2'' \<and>
   [] \<notin> set (split_nl ''SELECT\<newline>  1;\<newline>SELECT\<newline>  2'')"
  by (simp add: eval_defs)

text \<open>
  C9. Before a token of type other-reserved or a default token (neither a named type nor
  one of the values comma, colon, period, semicolon) is emitted: when the configured
  maximum is not zero and the length of the last line of the buffer plus the length of
  the token's value exceeds it, the overflow counter goes up by one and a new line is
  started before the token; otherwise, and always when the maximum is zero, the buffer
  and the counters are as they were and the token is appended. The token's value is the
  one the loop has written, a pending prefix included.
\<close>

theorem checkMaxCharacter_step:
  assumes "index < length tokens"
    and "type (tokens ! index) = RESERVED \<or>
         ((type (tokens ! index) = PUNCTUATION \<or> type (tokens ! index) = OTHER) \<and>
          value (prependToken fm (tokens ! index)) \<notin> {'','', '':'', ''.'', '';''})"
  shows "(case step C index (fm, tokens, query) of (fm1, tokens1, query1) \<Rightarrow>
    (let tok = prependToken fm (tokens ! index);
         lastLine = last (split_nl query);
         i = indentation fm
     in if maxCharacterPerLine fm \<noteq> 0 \<and>
           int (length lastLine + length (value tok)) > maxCharacterPerLine fm
        then indentation fm1 = i\<lparr>maxCharacterLevel := maxCharacterLevel i + 1\<rparr> \<and>
             query1 = trimEnd query @ [NL] @ getIndent (indentation fm1) @ value tok @ '' ''
        else indentation fm1 = i \<and> query1 = query @ value tok @ '' ''))
    \<and> (maxCharacterPerLine fm = 0 \<longrightarrow> checkMaxCharacter fm tokens index query = (fm, query))"
proof -
  let ?tok = "prependToken fm (tokens ! index)"
  let ?fm = "prependState fm (tokens ! index)"
  let ?toks = "tokens[index := ?tok]"
  have nth: "?toks ! index = ?tok"
    using assms(1) by simp
  have d: "dispatch C ?fm ?toks index query =
      (case checkMaxCharacter ?fm ?toks index query of
         (fm1, q) \<Rightarrow> (fm1\<lparr>previousReservedWord :=
             (if type ?tok = RESERVED then Some ?tok else previousReservedWord fm1)\<rparr>,
           formatWithSpaces ?tok q))"
  proof (cases "type (tokens ! index) = RESERVED")
    case True
    then show ?thesis
      by (simp add: dispatch_RESERVED nth)
  next
    case False
    with assms(2) show ?thesis
      by (simp add: dispatch_plain nth split: prod.splits)
  qed
  have c: "checkMaxCharacter ?fm ?toks index query =
      (if maxCharacterPerLine fm \<noteq> 0 \<and>
          int (length (last (split_nl query)) + length (value ?tok)) > maxCharacterPerLine fm
       then (?fm\<lparr>indentation := increaseMaxCharacterLevel (indentation fm)\<rparr>,
             trimEnd query @ [NL] @ getIndent (increaseMaxCharacterLevel (indentation fm)))
       else (?fm, query))"
    by (simp add: checkMaxCharacter_def Let_def nth addNewline_def)
  have e: "maxCharacterPerLine fm = 0 \<longrightarrow> checkMaxCharacter fm tokens index query = (fm, query)"
    by (simp add: checkMaxCharacter_def)
  show ?thesis
    using assms(1) e
    by (simp add: step_unfold d c Let_def formatWithSpaces_def increaseMaxCharacterLevel_def)
qed

text \<open>
  With a maximum of 5, the reserved word \<open>bbb\<close> after the line \<open>aaa \<close> goes to a new
  line, indented by the overflow level.
\<close>

theorem checkMaxCharacter_step_witness:
  "(1::nat) < length [tk OTHER ''aaa'', tk RESERVED ''bbb''] \<and>
   snd (snd (step (exampleCollaborators []) 1
     (exampleFormatter [] 5, [tk OTHER ''aaa'', tk RESERVED ''bbb''], ''aaa ''))) = ''aaa\<newline>  bbb ''"
  using checkMaxCharacter_step [where index = 1 and tokens = "[tk OTHER ''aaa'', tk RESERVED ''bbb'']"
     and fm = "exampleFormatter [] 5" and C = "exampleCollaborators []" and query = "''aaa ''"]
  by (simp add: tk_def prependToken_def takesPrepend_def exampleFormatter_def newFormatter_def
      newIndentation_def trimEnd_def is_space_def NL_def getIndent_def split: prod.splits)

text \<open>
  C10. A line comment is emitted in the form of a block comment, after the text before
  it on the same line; a block comment is emitted on a line of its own. So the result
  for \<open>a -- c\<close>, which is \<open>a /* c */\<close>, is not a fixed point: formatted again, its
  comment moves to the next line. The tokens of the two queries are given by a table.
\<close>

theorem reformat_moves_comment:
  "snd (format
      (exampleCollaborators
        [(''a -- c'', [tk OTHER ''a'', tk WHITESPACE '' '', tk LINE_COMMENT ''-- c'']),
         (''a /* c */'', [tk OTHER ''a'', tk WHITESPACE '' '', tk BLOCK_COMMENT ''/* c */''])])
      (exampleFormatter [] 0) ''a -- c'') = ''a /* c */'' \<and>
   snd (format
      (exampleCollaborators
        [(''a -- c'', [tk OTHER ''a'', tk WHITESPACE '' '', tk LINE_COMMENT ''-- c'']),
         (''a /* c */'', [tk OTHER ''a'', tk WHITESPACE '' '', tk BLOCK_COMMENT ''/* c */''])])
      (exampleFormatter [] 0) ''a /* c */'') = ''a\<newline>/* c */''"
  by (simp add: eval_defs)

end
